theory Spec2Isabelle
  imports Complex_Main "HOL-Library.AList"
begin

section \<open>Values, arguments and library functions\<close>

text \<open>
  The cached payloads are Python values built from dicts, lists and strings. \<open>JNull\<close> is
  Python's \<open>None\<close>, which \<open>QueryCache.get\<close> also returns for an absent entry.
\<close>

datatype json =
    JNull
  | JBool bool
  | JInt int
  | JStr string
  | JList "json list"
  | JDict "(string \<times> json) list"

text \<open>Python truthiness, as tested by \<open>if cached:\<close> in the handlers.\<close>

fun truthy :: "json \<Rightarrow> bool" where
  "truthy JNull = False"
| "truthy (JBool b) = b"
| "truthy (JInt i) = (i \<noteq> 0)"
| "truthy (JStr s) = (s \<noteq> [])"
| "truthy (JList xs) = (xs \<noteq> [])"
| "truthy (JDict kvs) = (kvs \<noteq> [])"

text \<open>
  The functions of Python's standard library that the cache calls are parameters of the
  model: \<open>md5_hex s\<close> is \<open>hashlib.md5(s.encode()).hexdigest()\<close>, \<open>json_dumps\<close> and
  \<open>json_loads\<close> are \<open>json.dumps\<close> and \<open>json.loads\<close>, with \<open>None\<close> when they raise.
  Instants are the values of the doubles that \<open>time.time()\<close> returns, and arithmetic on
  doubles is the exact operation followed by rounding to the nearest double:
  \<open>to_double x\<close> is that rounding.
\<close>

record lib =
  md5_hex :: "string \<Rightarrow> string"
  json_dumps :: "json \<Rightarrow> string option"
  json_loads :: "string \<Rightarrow> json option"
  to_double :: "rat \<Rightarrow> rat"

text \<open>
  What the expiry test needs of the rounding: it is monotone, and the integers of magnitude up
  to \<open>2 ^ 53\<close> are doubles.
\<close>

definition ieee_rounding :: "lib \<Rightarrow> bool" where
  "ieee_rounding L =
     ((\<forall>x y. x \<le> y \<longrightarrow> to_double L x \<le> to_double L y) \<and>
      (\<forall>n::int. \<bar>n\<bar> \<le> 2 ^ 53 \<longrightarrow> to_double L (of_int n) = of_int n))"

text \<open>The positional arguments of the cache operations: strings and integers.\<close>

datatype arg = StrArg string | IntArg int

fun digits :: "nat \<Rightarrow> string" where
  "digits n =
     (if n < 10 then [''0123456789'' ! n]
      else digits (n div 10) @ [''0123456789'' ! (n mod 10)])"

declare digits.simps [simp del]

text \<open>Python's \<open>str(arg)\<close>.\<close>

fun str :: "arg \<Rightarrow> string" where
  "str (StrArg s) = s"
| "str (IntArg i) = (if i < 0 then CHR ''-'' # digits (nat (- i)) else digits (nat i))"

text \<open>Python's \<open>d.join(xs)\<close>.\<close>

fun join :: "string \<Rightarrow> string list \<Rightarrow> string" where
  "join d [] = []"
| "join d [x] = x"
| "join d (x # y # ys) = x @ d @ join d (y # ys)"

section \<open>Key hasher\<close>

text \<open>
  \<^verbatim>\<open>
  def _hash_key(self, *args) -> str:
      key_str = "|".join(str(arg) for arg in args)
      return hashlib.md5(key_str.encode()).hexdigest()
  \<close>
\<close>

definition key_str :: "arg list \<Rightarrow> string" where
  "key_str args = join ''|'' (map str args)"

definition hash_key :: "lib \<Rightarrow> arg list \<Rightarrow> string" where
  "hash_key L args = md5_hex L (key_str args)"

definition redis_key :: "string \<Rightarrow> string" where
  "redis_key key = ''ai_cache:'' @ key"

section \<open>The shared store\<close>

text \<open>
  Modelled from the spec: the networked key-value service behind the shared variant is not
  part of the repository. The spec describes it as supporting GET, SET with expiry, DELETE,
  EXISTS, SETNX with expiry (atomic set-if-not-exists) and KEYS-by-prefix. A record is a
  value with the deadline at which it expires; a record is visible strictly before its
  deadline. The service rejects an expiry that is not positive. Time is in seconds.
\<close>

type_synonym time = rat

type_synonym store = "(string \<times> string \<times> time) list"

datatype error = StoreError | AttributeError | RetrievalError | CompletionError

definition r_get :: "store \<Rightarrow> time \<Rightarrow> string \<Rightarrow> string option" where
  "r_get db now k =
     (case map_of db k of
        None \<Rightarrow> None
      | Some (v, deadline) \<Rightarrow> if now < deadline then Some v else None)"

definition r_exists :: "store \<Rightarrow> time \<Rightarrow> string \<Rightarrow> bool" where
  "r_exists db now k = (r_get db now k \<noteq> None)"

definition r_set :: "store \<Rightarrow> time \<Rightarrow> string \<Rightarrow> string \<Rightarrow> int \<Rightarrow> error + store" where
  "r_set db now k v ex =
     (if ex \<le> 0 then Inl StoreError
      else Inr (AList.update k (v, now + of_int ex) db))"

definition r_set_nx :: "store \<Rightarrow> time \<Rightarrow> string \<Rightarrow> string \<Rightarrow> int \<Rightarrow> error + bool \<times> store" where
  "r_set_nx db now k v ex =
     (if ex \<le> 0 then Inl StoreError
      else if r_exists db now k then Inr (False, db)
      else Inr (True, AList.update k (v, now + of_int ex) db))"

definition r_delete :: "store \<Rightarrow> string list \<Rightarrow> store" where
  "r_delete db ks = fold AList.delete ks db"

definition r_keys :: "store \<Rightarrow> time \<Rightarrow> string \<Rightarrow> string list" where
  "r_keys db now p =
     filter (\<lambda>k. take (length p) k = p \<and> r_exists db now k) (remdups (map fst db))"

section \<open>Query cache\<close>

text \<open>
  The fields of \<open>QueryCache\<close>. \<open>redis\<close> is the client \<open>self._redis\<close> (\<open>None\<close> when no
  client was created), given by the content of the store it talks to. \<open>mem_cache\<close> maps a
  key to a value and the time it was written.
\<close>

record cache =
  ttl_seconds :: int
  mem_cache :: "(string \<times> json \<times> time) list"
  use_redis :: bool
  redis :: "store option"

text \<open>
  \<open>__init__\<close>: \<open>available\<close> is \<open>_REDIS_AVAILABLE\<close>, \<open>connect\<close> the outcome of
  \<open>redis.from_url\<close> and \<open>ping_ok\<close> whether \<open>ping()\<close> returned.
\<close>

definition init :: "int \<Rightarrow> bool \<Rightarrow> string option \<Rightarrow> error + store \<Rightarrow> bool \<Rightarrow> cache" where
  "init ttl available redis_url connect ping_ok =
     (let c = \<lparr>ttl_seconds = ttl, mem_cache = [], use_redis = False, redis = None\<rparr> in
      if available \<and> redis_url \<noteq> None \<and> redis_url \<noteq> Some [] then
        (case connect of
           Inl e \<Rightarrow> c
         | Inr db \<Rightarrow>
             if ping_ok then c\<lparr>use_redis := True, redis := Some db\<rparr>
             else c\<lparr>redis := Some db\<rparr>)
      else c)"

text \<open>The test \<open>self._use_redis and self._redis\<close>: the store when both hold.\<close>

definition shared :: "cache \<Rightarrow> store option" where
  "shared c = (if use_redis c then redis c else None)"

text \<open>
  A call to the store may raise (the connection is lost). Every operation takes a fault
  oracle: its \<open>i\<close>-th call to the store raises when \<open>fault i\<close> holds, and a call that raises
  leaves the store as it was.
\<close>

type_synonym faults = "nat \<Rightarrow> bool"

text \<open>\<open>try: return json.loads(val) except Exception: return None\<close>\<close>

definition decode :: "lib \<Rightarrow> string \<Rightarrow> json" where
  "decode L val = (case json_loads L val of None \<Rightarrow> JNull | Some v \<Rightarrow> v)"

text \<open>The test \<open>if val:\<close> on the reply of \<open>redis.get\<close>.\<close>

fun val_truthy :: "string option \<Rightarrow> bool" where
  "val_truthy None = False"
| "val_truthy (Some s) = (s \<noteq> [])"

text \<open>
  The polling loop of \<open>get\<close>:
  \<^verbatim>\<open>
  waited = 0.0
  poll_interval = 0.5
  while waited < lock_timeout:
      val = self._redis.get(rk)
      if val:
          try: return json.loads(val)
          except Exception: return None
      if not self._redis.exists(lock_key):
          break
      time.sleep(poll_interval)
      waited += poll_interval
  return None
  \<close>
  \<open>n\<close> counts the sleeps made so far, so \<open>waited\<close> is \<open>n / 2\<close> (halves are exact in
  floating point). \<open>gets n\<close> and \<open>exs n\<close> are what the store replies to \<open>get(rk)\<close> and
  \<open>exists(lock_key)\<close> in the round after \<open>n\<close> sleeps: any behaviour of the store and of the
  other workers is a choice of these two functions. The result is the outcome and the
  number of sleeps made.
\<close>

function poll ::
  "lib \<Rightarrow> (nat \<Rightarrow> error + string option) \<Rightarrow> (nat \<Rightarrow> error + bool) \<Rightarrow> int \<Rightarrow> nat
     \<Rightarrow> (error + json) \<times> nat" where
  "poll L gets exs lock_timeout n =
     (if int n < 2 * lock_timeout then
        (case gets n of
           Inl e \<Rightarrow> (Inl e, n)
         | Inr val \<Rightarrow>
             if val_truthy val then (Inr (decode L (the val)), n)
             else
               (case exs n of
                  Inl e \<Rightarrow> (Inl e, n)
                | Inr present \<Rightarrow>
                    if \<not> present then (Inr JNull, n)
                    else poll L gets exs lock_timeout (Suc n)))
      else (Inr JNull, n))"
  by pat_completeness auto
termination
  by (relation "measure (\<lambda>(L, gets, exs, lock_timeout, n). nat (2 * lock_timeout - int n))") auto

declare poll.simps [simp del]

text \<open>
  Round \<open>j\<close> of the polling loop is a waiting round: the store answers, the entry is
  absent and the lock record is present.
\<close>

definition waiting :: "(nat \<Rightarrow> error + string option) \<Rightarrow> (nat \<Rightarrow> error + bool) \<Rightarrow> nat \<Rightarrow> bool" where
  "waiting gets exs j =
     ((case gets j of Inl e \<Rightarrow> False | Inr val \<Rightarrow> \<not> val_truthy val) \<and> exs j = Inr True)"

text \<open>A call to the store under a fault oracle.\<close>

definition call :: "faults \<Rightarrow> nat \<Rightarrow> 'a \<Rightarrow> error + 'a" where
  "call fault i reply = (if fault i then Inl StoreError else Inr reply)"

text \<open>
  While a caller sleeps in the polling loop the other workers go on writing to the shared
  store: \<open>others n\<close> is what they do to it during the sleep number \<open>n\<close>, and
  \<open>world others db n\<close> is the store after \<open>n\<close> sleeps, when it was \<open>db\<close> at the start.
  \<open>quiet\<close> is the case in which nobody else writes.
\<close>

primrec world :: "(nat \<Rightarrow> store \<Rightarrow> store) \<Rightarrow> store \<Rightarrow> nat \<Rightarrow> store" where
  "world others db 0 = db"
| "world others db (Suc n) = others n (world others db n)"

definition quiet :: "nat \<Rightarrow> store \<Rightarrow> store" where
  "quiet n db = db"

text \<open>
  \<open>get(*args, wait_for_result=True, lock_timeout=30)\<close>, called at time \<open>now\<close>. The result
  is the outcome (an exception or the value returned), the cache afterwards and the number
  of sleeps made. The round after \<open>n\<close> sleeps reads the store at \<open>now + n / 2\<close>, as the
  other workers left it. In the local variant \<open>time.time() - timestamp\<close> is a subtraction of
  doubles, and its comparison with the integer \<open>ttl_seconds\<close> is exact.
\<close>

definition get ::
  "lib \<Rightarrow> (nat \<Rightarrow> store \<Rightarrow> store) \<Rightarrow> faults \<Rightarrow> time \<Rightarrow> bool \<Rightarrow> int \<Rightarrow> arg list \<Rightarrow> cache
     \<Rightarrow> (error + json) \<times> cache \<times> nat" where
  "get L others fault now wait_for_result lock_timeout args c =
     (let key = hash_key L args in
      if use_redis c then
        (case redis c of
           None \<Rightarrow> (Inl AttributeError, c, 0)
         | Some db \<Rightarrow>
             (let rk = redis_key key in
              case call fault 0 (r_get db now rk) of
                Inl e \<Rightarrow> (Inl e, c, 0)
              | Inr val \<Rightarrow>
                  if val_truthy val then (Inr (decode L (the val)), c, 0)
                  else if wait_for_result then
                    (let lock_key = rk @ '':lock'';
                         r = poll L
                               (\<lambda>n. call fault (2 * n + 1)
                                      (r_get (world others db n) (now + of_nat n / 2) rk))
                               (\<lambda>n. call fault (2 * n + 2)
                                      (r_exists (world others db n) (now + of_nat n / 2) lock_key))
                               lock_timeout 0
                     in (fst r, c\<lparr>redis := Some (world others db (snd r))\<rparr>, snd r))
                  else (Inr JNull, c, 0)))
      else
        (case map_of (mem_cache c) key of
           Some (result, timestamp) \<Rightarrow>
             if to_double L (now - timestamp) < of_int (ttl_seconds c) then (Inr result, c, 0)
             else (Inr JNull, c\<lparr>mem_cache := AList.delete key (mem_cache c)\<rparr>, 0)
         | None \<Rightarrow> (Inr JNull, c, 0)))"

text \<open>
  What the round after \<open>j\<close> sleeps of a \<open>get\<close> for \<open>args\<close> started at \<open>now\<close> finds in the
  store: the reply to \<open>get(rk)\<close> and to \<open>exists(lock_key)\<close>.
\<close>

definition entry_at ::
  "lib \<Rightarrow> (nat \<Rightarrow> store \<Rightarrow> store) \<Rightarrow> store \<Rightarrow> time \<Rightarrow> arg list \<Rightarrow> nat \<Rightarrow> string option" where
  "entry_at L others db now args j =
     r_get (world others db j) (now + of_nat j / 2) (redis_key (hash_key L args))"

definition lock_at ::
  "lib \<Rightarrow> (nat \<Rightarrow> store \<Rightarrow> store) \<Rightarrow> store \<Rightarrow> time \<Rightarrow> arg list \<Rightarrow> nat \<Rightarrow> bool" where
  "lock_at L others db now args j =
     r_exists (world others db j) (now + of_nat j / 2) (redis_key (hash_key L args) @ '':lock'')"

text \<open>
  The body of the \<open>try\<close> block of \<open>set\<close>: \<open>json.dumps\<close>, then \<open>redis.set(rk, ..., ex=ttl)\<close>
  (call 0), then \<open>redis.delete(rk + ":lock")\<close> (call 1). The result is the store afterwards
  and whether the block raised.
\<close>

definition set_shared ::
  "lib \<Rightarrow> faults \<Rightarrow> time \<Rightarrow> int \<Rightarrow> string \<Rightarrow> json \<Rightarrow> store \<Rightarrow> store \<times> bool" where
  "set_shared L fault now ttl rk result db =
     (case json_dumps L result of
        None \<Rightarrow> (db, True)
      | Some s \<Rightarrow>
          if fault 0 then (db, True)
          else
            (case r_set db now rk s ttl of
               Inl e \<Rightarrow> (db, True)
             | Inr db1 \<Rightarrow>
                 if fault 1 then (db1, True)
                 else (r_delete db1 [rk @ '':lock''], False)))"

text \<open>\<open>set(result, *args)\<close>, called at time \<open>now\<close>.\<close>

definition set_cache :: "lib \<Rightarrow> faults \<Rightarrow> time \<Rightarrow> json \<Rightarrow> arg list \<Rightarrow> cache \<Rightarrow> cache" where
  "set_cache L fault now result args c =
     (let key = hash_key L args in
      case shared c of
        Some db \<Rightarrow>
          (case set_shared L fault now (ttl_seconds c) (redis_key key) result db of
             (db', raised) \<Rightarrow>
               if raised then
                 c\<lparr>redis := Some db', mem_cache := AList.update key (result, now) (mem_cache c)\<rparr>
               else c\<lparr>redis := Some db'\<rparr>)
      | None \<Rightarrow> c\<lparr>mem_cache := AList.update key (result, now) (mem_cache c)\<rparr>)"

text \<open>
  The two steps of the local branch of \<open>acquire_lock\<close>: the test
  \<open>mem_lock_key in self._mem_cache\<close> and the write
  \<open>self._mem_cache[mem_lock_key] = ({}, time.time())\<close>.
\<close>

definition lock_check :: "lib \<Rightarrow> arg list \<Rightarrow> cache \<Rightarrow> bool" where
  "lock_check L args c = (map_of (mem_cache c) (''lock:'' @ hash_key L args) \<noteq> None)"

definition lock_write :: "lib \<Rightarrow> time \<Rightarrow> arg list \<Rightarrow> cache \<Rightarrow> cache" where
  "lock_write L now args c =
     c\<lparr>mem_cache := AList.update (''lock:'' @ hash_key L args) (JDict [], now) (mem_cache c)\<rparr>"

text \<open>
  \<open>acquire_lock(*args, lock_ttl=30)\<close>, called at time \<open>now\<close>: the truth value of what is
  returned (the shared branch returns \<open>True\<close> or \<open>None\<close>), and the cache afterwards.
\<close>

definition acquire_lock :: "lib \<Rightarrow> faults \<Rightarrow> time \<Rightarrow> int \<Rightarrow> arg list \<Rightarrow> cache \<Rightarrow> bool \<times> cache" where
  "acquire_lock L fault now lock_ttl args c =
     (let key = hash_key L args in
      case shared c of
        Some db \<Rightarrow>
          (let lock_key = redis_key key @ '':lock'' in
           if fault 0 then (False, c)
           else
             (case r_set_nx db now lock_key ''1'' lock_ttl of
                Inl e \<Rightarrow> (False, c)
              | Inr (created, db') \<Rightarrow> (created, c\<lparr>redis := Some db'\<rparr>)))
      | None \<Rightarrow>
          (if lock_check L args c then (False, c) else (True, lock_write L now args c)))"

text \<open>
  Two threads in the local branch of \<open>acquire_lock\<close> for the same arguments, the second
  making its test before the first makes its write (the mapping has no guard, and the
  handlers run on the threads of a pool): what each returns, and the cache afterwards.
\<close>

definition racing_acquire :: "lib \<Rightarrow> time \<Rightarrow> time \<Rightarrow> arg list \<Rightarrow> cache \<Rightarrow> bool \<times> bool \<times> cache" where
  "racing_acquire L now1 now2 args c =
     (let found1 = lock_check L args c;
          found2 = lock_check L args c;
          c1 = (if found1 then c else lock_write L now1 args c);
          c2 = (if found2 then c1 else lock_write L now2 args c1)
      in (\<not> found1, \<not> found2, c2))"

text \<open>\<open>release_lock(*args)\<close>\<close>

definition release_lock :: "lib \<Rightarrow> faults \<Rightarrow> arg list \<Rightarrow> cache \<Rightarrow> cache" where
  "release_lock L fault args c =
     (let key = hash_key L args in
      case shared c of
        Some db \<Rightarrow>
          (let lock_key = redis_key key @ '':lock'' in
           if fault 0 then c else c\<lparr>redis := Some (r_delete db [lock_key])\<rparr>)
      | None \<Rightarrow>
          (let mem_lock_key = ''lock:'' @ key in
           if map_of (mem_cache c) mem_lock_key \<noteq> None
           then c\<lparr>mem_cache := AList.delete mem_lock_key (mem_cache c)\<rparr>
           else c))"

text \<open>\<open>clear()\<close>, called at time \<open>now\<close>.\<close>

definition clear :: "faults \<Rightarrow> time \<Rightarrow> cache \<Rightarrow> cache" where
  "clear fault now c =
     (let c1 =
        (case shared c of
           Some db \<Rightarrow>
             if fault 0 then c
             else
               (let keys = r_keys db now ''ai_cache:'' in
                if keys \<noteq> [] then
                  (if fault 1 then c else c\<lparr>redis := Some (r_delete db keys)\<rparr>)
                else c)
         | None \<Rightarrow> c)
      in c1\<lparr>mem_cache := []\<rparr>)"

text \<open>\<open>get_cache_count()\<close>, called at time \<open>now\<close>.\<close>

definition get_cache_count :: "faults \<Rightarrow> time \<Rightarrow> cache \<Rightarrow> nat" where
  "get_cache_count fault now c =
     (case shared c of
        Some db \<Rightarrow>
          if fault 0 then length (remdups (map fst (mem_cache c)))
          else length (r_keys db now ''ai_cache:'')
      | None \<Rightarrow> length (remdups (map fst (mem_cache c))))"

text \<open>
  Whether a lock record for \<open>args\<close> is present at time \<open>now\<close>: a live record under
  \<open>ai_cache:<key>:lock\<close> in the shared store, or an entry \<open>lock:<key>\<close> in the local
  mapping.
\<close>

definition lock_present :: "lib \<Rightarrow> time \<Rightarrow> arg list \<Rightarrow> cache \<Rightarrow> bool" where
  "lock_present L now args c =
     (case shared c of
        Some db \<Rightarrow> r_exists db now (redis_key (hash_key L args) @ '':lock'')
      | None \<Rightarrow> map_of (mem_cache c) (''lock:'' @ hash_key L args) \<noteq> None)"

text \<open>
  The invariant behind the coalescing lock: a lock record for \<open>args\<close> that stays until
  \<open>deadline\<close> (in the local mapping a lock entry has no deadline at all).
\<close>

definition held :: "lib \<Rightarrow> time \<Rightarrow> arg list \<Rightarrow> cache \<Rightarrow> bool" where
  "held L deadline args c =
     (case shared c of
        Some db \<Rightarrow>
          (case map_of db (redis_key (hash_key L args) @ '':lock'') of
             None \<Rightarrow> False
           | Some (v, d) \<Rightarrow> d = deadline)
      | None \<Rightarrow> map_of (mem_cache c) (''lock:'' @ hash_key L args) \<noteq> None)"

text \<open>
  Calls of the cache operations made one after another, each with the time at which it is
  made and its fault oracle, and the cache after a sequence of them. All writes of the other
  workers are calls of the sequence, so a \<open>Get\<close> of the sequence polls a quiet store.
\<close>

datatype request =
    Get "arg list" bool int
  | Acquire "arg list" int
  | Count
  | Set json "arg list"
  | Release "arg list"

fun step :: "lib \<Rightarrow> time \<times> faults \<times> request \<Rightarrow> cache \<Rightarrow> cache" where
  "step L (now, fault, Get args wait_for_result lock_timeout) c =
     fst (snd (get L quiet fault now wait_for_result lock_timeout args c))"
| "step L (now, fault, Acquire args lock_ttl) c = snd (acquire_lock L fault now lock_ttl args c)"
| "step L (now, fault, Count) c = c"
| "step L (now, fault, Set result args) c = set_cache L fault now result args c"
| "step L (now, fault, Release args) c = release_lock L fault args c"

text \<open>
  A call spares the lock of \<open>args\<close> when it is not a \<open>set\<close> or a \<open>release_lock\<close> for the
  key of \<open>args\<close>.
\<close>

fun spares :: "lib \<Rightarrow> arg list \<Rightarrow> request \<Rightarrow> bool" where
  "spares L args (Set result b) = (hash_key L b \<noteq> hash_key L args)"
| "spares L args (Release b) = (hash_key L b \<noteq> hash_key L args)"
| "spares L args (Get b wait_for_result lock_timeout) = True"
| "spares L args (Acquire b lock_ttl) = True"
| "spares L args Count = True"

definition run :: "lib \<Rightarrow> (time \<times> faults \<times> request) list \<Rightarrow> cache \<Rightarrow> cache" where
  "run L rs c = fold (step L) rs c"

section \<open>The summarize handler\<close>

text \<open>A retrieved document; \<open>page_content\<close> is \<open>None\<close> when it is not a string.\<close>

record doc =
  page_content :: "string option"

text \<open>Python's \<open>str.strip()\<close> on code points below 256.\<close>

definition is_space :: "char \<Rightarrow> bool" where
  "is_space ch =
     (let n = (of_char ch :: nat)
      in (9 \<le> n \<and> n \<le> 13) \<or> (28 \<le> n \<and> n \<le> 32) \<or> n = 133 \<or> n = 160)"

definition strip :: "string \<Rightarrow> string" where
  "strip s = rev (dropWhile is_space (rev (dropWhile is_space s)))"

text \<open>\<open>isinstance(d.page_content, str) and len(d.page_content.strip()) > 50\<close>\<close>

definition usable :: "doc \<Rightarrow> bool" where
  "usable d = (case page_content d of None \<Rightarrow> False | Some s \<Rightarrow> length (strip s) > 50)"

definition content :: "doc \<Rightarrow> string" where
  "content d = (case page_content d of None \<Rightarrow> [] | Some s \<Rightarrow> s)"

text \<open>
  \<^verbatim>\<open>
  selected, token_total = [], 0
  for d in cleaned:
      t = estimate_tokens(d.page_content)
      if token_total + t > 10000:
          break
      selected.append(d)
      token_total += t
  \<close>
\<close>

fun select_docs :: "(string \<Rightarrow> int) \<Rightarrow> doc list \<Rightarrow> int \<Rightarrow> doc list" where
  "select_docs est [] token_total = []"
| "select_docs est (d # ds) token_total =
     (let t = est (content d)
      in if token_total + t > 10000 then []
         else d # select_docs est ds (token_total + t))"

text \<open>
  What one invocation of the handler meets outside the cache. The cache operations of an
  invocation are numbered (0 the first \<open>get\<close>, 1 \<open>acquire_lock\<close>, 2 the second \<open>get\<close>,
  3 \<open>set\<close>, 4 \<open>release_lock\<close>): \<open>clock i\<close> is the time at which operation \<open>i\<close> is made,
  \<open>store_fault i\<close> its fault oracle, \<open>before i\<close> what the other workers did to the shared
  store since the previous operation, and \<open>sleeping i\<close> what they do to it during the sleeps
  of operation \<open>i\<close>. \<open>fetch_docs\<close> is the outcome of
  \<open>_fetch_docs_by("content", chapter_query, k=200)\<close>, \<open>estimate_tokens\<close> the function of
  that name (its module is not part of the sources), and \<open>generate selected\<close> the outcome
  of building the prompt, invoking the chain and \<open>parse_bilingual\<close>: an exception, or the
  pair \<open>(english, swahili)\<close>.
\<close>

record env =
  clock :: "nat \<Rightarrow> time"
  store_fault :: "nat \<Rightarrow> faults"
  before :: "nat \<Rightarrow> store \<Rightarrow> store"
  sleeping :: "nat \<Rightarrow> nat \<Rightarrow> store \<Rightarrow> store"
  fetch_docs :: "error + doc list"
  estimate_tokens :: "string \<Rightarrow> int"
  generate :: "doc list \<Rightarrow> error + string \<times> string"

text \<open>The other workers write to the store this cache talks to.\<close>

definition meanwhile :: "(store \<Rightarrow> store) \<Rightarrow> cache \<Rightarrow> cache" where
  "meanwhile f c = c\<lparr>redis := map_option f (redis c)\<rparr>"

text \<open>
  \<open>summarize_chapter\<close> from \<open># Fetch docs\<close> on: retrieval, selection, the early return
  when nothing was selected, and the \<open>try\<close>/\<open>finally\<close> block.
\<close>

definition compute_summary ::
  "lib \<Rightarrow> env \<Rightarrow> string \<Rightarrow> bool \<Rightarrow> cache \<Rightarrow> (error + json) \<times> cache" where
  "compute_summary L E chapter_query got_lock c =
     (let args = [StrArg ''summarize'', StrArg chapter_query] in
      case fetch_docs E of
        Inl e \<Rightarrow> (Inl e, c)
      | Inr chapter_docs \<Rightarrow>
          (let cleaned = sort_key (\<lambda>d. - int (length (content d))) (filter usable chapter_docs);
               selected = select_docs (estimate_tokens E) cleaned 0
           in if selected = [] then
                (let result =
                   JDict [(''english'',
                             JStr (''No usable content found for Chapter '' @ chapter_query @ ''.'')),
                          (''swahili'', JStr [])]
                 in (Inr result,
                     set_cache L (store_fault E 3) (clock E 3) result args
                       (meanwhile (before E 3) c)))
              else
                (case (case generate E selected of
                         Inl e \<Rightarrow> (Inl e, c)
                       | Inr (english, swahili) \<Rightarrow>
                           (let response =
                              JDict [(''english'', JStr english), (''swahili'', JStr swahili)]
                            in (Inr response,
                                set_cache L (store_fault E 3) (clock E 3) response args
                                  (meanwhile (before E 3) c))))
                 of (out, c') \<Rightarrow>
                   (out,
                    if got_lock
                    then release_lock L (store_fault E 4) args (meanwhile (before E 4) c')
                    else c'))))"

text \<open>\<open>summarize_chapter(chapter_query)\<close>: the outcome and the cache afterwards.\<close>

definition summarize_chapter :: "lib \<Rightarrow> env \<Rightarrow> string \<Rightarrow> cache \<Rightarrow> (error + json) \<times> cache" where
  "summarize_chapter L E chapter_query c =
     (let args = [StrArg ''summarize'', StrArg chapter_query] in
      case get L (sleeping E 0) (store_fault E 0) (clock E 0) True 30 args
             (meanwhile (before E 0) c) of
        (Inl e, c1, sleeps) \<Rightarrow> (Inl e, c1)
      | (Inr cached, c1, sleeps) \<Rightarrow>
          if truthy cached then (Inr cached, c1)
          else
            (case acquire_lock L (store_fault E 1) (clock E 1) 30 args
                    (meanwhile (before E 1) c1) of
               (got_lock, c2) \<Rightarrow>
                 if \<not> got_lock then
                   (case get L (sleeping E 2) (store_fault E 2) (clock E 2) True 30 args
                           (meanwhile (before E 2) c2) of
                      (Inl e, c3, sleeps2) \<Rightarrow> (Inl e, c3)
                    | (Inr cached2, c3, sleeps2) \<Rightarrow>
                        if truthy cached2 then (Inr cached2, c3)
                        else compute_summary L E chapter_query got_lock c3)
                 else compute_summary L E chapter_query got_lock c2))"

section \<open>Concrete instances\<close>

text \<open>
  An instance of the library for concrete runs: the digest pads or cuts its input to 32
  characters, the codec knows the payload of the spec's scenario, and rounding is the
  identity, as it is on the instants of the concrete runs (integers and halves of small
  size are doubles, and so are their differences). A cache on an empty
  shared store, and a cache that fell back to the local mapping.
\<close>

definition sample_value :: json where
  "sample_value = JDict [(''english'', JStr ''X''), (''swahili'', JStr ''Y'')]"

definition sample_lib :: lib where
  \<open>sample_lib =
     \<lparr>md5_hex = (\<lambda>s. take 32 (s @ replicate 32 CHR ''0'')),
      json_dumps =
        (\<lambda>v. if v = sample_value then Some ''{"english": "X", "swahili": "Y"}'' else None),
      json_loads =
        (\<lambda>s. if s = ''{"english": "X", "swahili": "Y"}'' then Some sample_value else None),
      to_double = (\<lambda>x. x)\<rparr>\<close>

definition sample_shared :: cache where
  "sample_shared = init 600 True (Some ''redis://localhost:6379'') (Inr []) True"

definition sample_local :: cache where
  "sample_local = init 600 False None (Inl StoreError) False"

text \<open>An invocation of the handler that retrieves no document.\<close>

definition sample_env :: env where
  "sample_env =
     \<lparr>clock = (\<lambda>i. of_nat i + 1),
      store_fault = (\<lambda>i j. False),
      before = (\<lambda>i db. db),
      sleeping = (\<lambda>i. quiet),
      fetch_docs = Inr [],
      estimate_tokens = (\<lambda>s. int (length s) div 4),
      generate = (\<lambda>ds. Inr (''Summary'', ''Muhtasari''))\<rparr>"

text \<open>
  Two callers ask for the summary of chapter 1 on an empty shared store. The other caller takes
  the lock at time 1/5, before this one tries. In \<open>coalesced_env\<close> it publishes its result at
  time 3/4, while this caller sleeps in its second \<open>get\<close>; in \<open>abandoned_env\<close> it never
  does.
\<close>

definition winner_lock :: "store \<Rightarrow> store" where
  "winner_lock db =
     (case r_set_nx db (1 / 5)
             (redis_key (hash_key sample_lib [StrArg ''summarize'', StrArg ''1'']) @ '':lock'')
             ''1'' 30 of
        Inl e \<Rightarrow> db
      | Inr (created, db') \<Rightarrow> db')"

definition winner_publish :: "store \<Rightarrow> store" where
  "winner_publish db =
     fst (set_shared sample_lib (\<lambda>i. False) (3 / 4) 600
            (redis_key (hash_key sample_lib [StrArg ''summarize'', StrArg ''1'']))
            sample_value db)"

definition abandoned_env :: env where
  "abandoned_env =
     sample_env\<lparr>clock := (\<lambda>i. of_nat i / 4),
                before := (\<lambda>i. if i = 1 then winner_lock else (\<lambda>db. db))\<rparr>"

definition coalesced_env :: env where
  "coalesced_env =
     abandoned_env\<lparr>sleeping := (\<lambda>i n. if i = 2 \<and> n = 0 then winner_publish else (\<lambda>db. db))\<rparr>"

section \<open>Facts about the store and the cache operations\<close>

lemma r_exists_iff:
  "r_exists db now k = (case map_of db k of None \<Rightarrow> False | Some (v, d) \<Rightarrow> now < d)"
  by (simp add: r_exists_def r_get_def split: option.splits)

lemma r_set_nx_fresh:
  "\<not> r_exists db t k \<Longrightarrow> 0 < ex \<Longrightarrow>
   r_set_nx db t k v ex = Inr (True, AList.update k (v, t + of_int ex) db)"
  by (simp add: r_set_nx_def)

lemma r_set_nx_keeps:
  assumes "map_of db k = Some (v, d)" "u < d" "r_set_nx db u k' x ex = Inr (b, db')"
  shows "map_of db' k = Some (v, d)"
proof (cases "k' = k")
  case True
  have "r_exists db u k" using assms(1,2) by (simp add: r_exists_iff)
  then show ?thesis using assms True by (simp add: r_set_nx_def split: if_splits)
next
  case False
  then show ?thesis using assms by (auto simp: r_set_nx_def update_conv' split: if_splits)
qed

lemma r_set_nx_held:
  assumes "map_of db k = Some (v, d)" "u < d"
  shows "r_set_nx db u k x ex = Inl StoreError \<or> r_set_nx db u k x ex = Inr (False, db)"
proof -
  have "r_exists db u k" using assms by (simp add: r_exists_iff)
  then show ?thesis by (simp add: r_set_nx_def)
qed

lemma shared_redis_upd: "use_redis c \<Longrightarrow> shared (c\<lparr>redis := Some db\<rparr>) = Some db"
  by (simp add: shared_def)

lemma shared_mem_upd: "shared (c\<lparr>mem_cache := m\<rparr>) = shared c"
  by (simp add: shared_def)

lemma shared_SomeD: "shared c = Some db \<Longrightarrow> use_redis c \<and> redis c = Some db"
  by (simp add: shared_def split: if_splits)

lemma acquire_lock_shared:
  "shared c = Some db \<Longrightarrow>
   acquire_lock L fault now ttl a c =
     (if fault 0 then (False, c)
      else case r_set_nx db now (redis_key (hash_key L a) @ '':lock'') ''1'' ttl of
             Inl e \<Rightarrow> (False, c)
           | Inr (created, db') \<Rightarrow> (created, c\<lparr>redis := Some db'\<rparr>))"
  by (simp add: acquire_lock_def lock_check_def lock_write_def Let_def)

lemma acquire_lock_local:
  "shared c = None \<Longrightarrow>
   acquire_lock L fault now ttl a c =
     (if map_of (mem_cache c) (''lock:'' @ hash_key L a) \<noteq> None then (False, c)
      else (True, c\<lparr>mem_cache :=
                       AList.update (''lock:'' @ hash_key L a) (JDict [], now) (mem_cache c)\<rparr>))"
  by (simp add: acquire_lock_def lock_check_def lock_write_def Let_def)

lemma world_quiet [simp]: "world quiet db n = db"
  by (induction n) (simp_all add: quiet_def)

lemma redis_same: "redis c = Some db \<Longrightarrow> c\<lparr>redis := Some db\<rparr> = c"
  by (cases c) simp

lemma get_shared_state: "use_redis c \<Longrightarrow> fst (snd (get L quiet fault u w lt b c)) = c"
  unfolding get_def Let_def
  by (cases "redis c"; cases "call fault 0 (r_get (the (redis c)) u (redis_key (hash_key L b)))";
      simp add: redis_same)

lemma get_local:
  "\<not> use_redis c \<Longrightarrow>
   get L others fault now w lt a c =
     (case map_of (mem_cache c) (hash_key L a) of
        Some (result, timestamp) \<Rightarrow>
          if to_double L (now - timestamp) < of_int (ttl_seconds c) then (Inr result, c, 0)
          else (Inr JNull, c\<lparr>mem_cache := AList.delete (hash_key L a) (mem_cache c)\<rparr>, 0)
      | None \<Rightarrow> (Inr JNull, c, 0))"
  by (simp add: get_def Let_def)

lemma get_shared_hit:
  assumes "use_redis c" "redis c = Some db" "\<not> fault 0"
    and "r_get db now (redis_key (hash_key L a)) = Some s" "s \<noteq> []"
  shows "get L others fault now w lt a c = (Inr (decode L s), c, 0)"
  using assms by (simp add: get_def Let_def call_def)

lemma set_shared_ok:
  assumes "json_dumps L v = Some s" "\<not> fault 0" "0 < ttl"
  shows "map_of (fst (set_shared L fault now ttl rk v db)) rk = Some (s, now + of_int ttl)"
  using assms
  by (simp add: set_shared_def r_set_def r_delete_def update_conv' delete_conv')

lemma set_cache_local:
  "shared c = None \<Longrightarrow>
   set_cache L fault now v a c =
     c\<lparr>mem_cache := AList.update (hash_key L a) (v, now) (mem_cache c)\<rparr>"
  by (simp add: set_cache_def Let_def)

lemma set_cache_shared:
  "shared c = Some db \<Longrightarrow>
   set_cache L fault now v a c =
     (if snd (set_shared L fault now (ttl_seconds c) (redis_key (hash_key L a)) v db)
      then c\<lparr>redis := Some (fst (set_shared L fault now (ttl_seconds c)
                                   (redis_key (hash_key L a)) v db)),
             mem_cache := AList.update (hash_key L a) (v, now) (mem_cache c)\<rparr>
      else c\<lparr>redis := Some (fst (set_shared L fault now (ttl_seconds c)
                                   (redis_key (hash_key L a)) v db))\<rparr>)"
  by (simp add: set_cache_def Let_def split: prod.splits)

subsection \<open>Reads of an absent entry\<close>

lemma poll_absent:
  assumes "\<forall>n. \<exists>val. gets n = Inr val \<and> \<not> val_truthy val" "\<forall>n. \<exists>b. exs n = Inr b"
  shows "fst (poll L gets exs lt n) = Inr JNull"
  using assms
proof (induction L gets exs lt n rule: poll.induct)
  case (1 L gets exs lock_timeout n)
  obtain val where v: "gets n = Inr val" "\<not> val_truthy val" using "1.prems"(1) by blast
  obtain b where b: "exs n = Inr b" using "1.prems"(2) by blast
  show ?case
  proof (cases "int n < 2 * lock_timeout \<and> b")
    case True
    then show ?thesis using 1 v b by (subst poll.simps) simp
  next
    case False
    then show ?thesis using v b by (subst poll.simps) auto
  qed
qed

lemma get_shared_miss:
  assumes "use_redis c" "redis c = Some db" "\<forall>i. \<not> fault i"
    and "\<And>u. now \<le> u \<Longrightarrow> \<not> val_truthy (r_get db u (redis_key (hash_key L a)))"
  shows "fst (get L quiet fault now w lt a c) = Inr JNull"
proof -
  have 0: "\<not> val_truthy (r_get db now (redis_key (hash_key L a)))" using assms(4) by simp
  have "fst (poll L
          (\<lambda>n. call fault (2 * n + 1) (r_get db (now + of_nat n / 2) (redis_key (hash_key L a))))
          (\<lambda>n. call fault (2 * n + 2) (r_exists db (now + of_nat n / 2) (redis_key (hash_key L a) @ '':lock'')))
          lt 0) = Inr JNull"
    by (rule poll_absent) (use assms(3,4) in \<open>simp_all add: call_def\<close>)
  then show ?thesis using assms(1,2,3) 0
    by (simp add: get_def Let_def call_def)
qed

subsection \<open>Joining with a separator\<close>

lemma join_Cons: "ys \<noteq> [] \<Longrightarrow> join d (x # ys) = x @ d @ join d ys"
  by (cases ys) simp_all

lemma append_sep_eq:
  assumes "c \<notin> set x" "c \<notin> set y" "x @ c # r = y @ c # r'"
  shows "x = y \<and> r = r'"
  using assms
proof (induction x arbitrary: y)
  case Nil
  then show ?case by (cases y) auto
next
  case (Cons h x)
  then show ?case by (cases y) auto
qed

lemma join_inj:
  assumes "xs \<noteq> []" "ys \<noteq> []" "\<forall>x \<in> set xs \<union> set ys. c \<notin> set x" "join [c] xs = join [c] ys"
  shows "xs = ys"
  using assms
proof (induction xs arbitrary: ys)
  case Nil
  then show ?case by simp
next
  case (Cons x xs)
  then obtain y ys' where ys: "ys = y # ys'" by (cases ys) auto
  have cx: "c \<notin> set x" and cy: "c \<notin> set y" using Cons.prems(3) ys by auto
  show ?case
  proof (cases "xs = []")
    case True
    note xe = this
    show ?thesis
    proof (cases "ys' = []")
      case True
      then show ?thesis using Cons.prems(4) xe ys by simp
    next
      case False
      then have "x = y @ c # join [c] ys'" using Cons.prems(4) xe ys by (simp add: join_Cons)
      then have "c \<in> set x" by simp
      then show ?thesis using cx by simp
    qed
  next
    case False
    note xn = this
    show ?thesis
    proof (cases "ys' = []")
      case True
      then have "y = x @ c # join [c] xs" using Cons.prems(4) xn ys by (simp add: join_Cons)
      then have "c \<in> set y" by simp
      then show ?thesis using cy by simp
    next
      case False
      then have "x @ c # join [c] xs = y @ c # join [c] ys'"
        using Cons.prems(4) xn ys by (simp add: join_Cons)
      then have e: "x = y" "join [c] xs = join [c] ys'"
        using append_sep_eq[OF cx cy] by simp_all
      have "xs = ys'"
        using Cons.IH[OF xn False _ e(2)] Cons.prems(3) ys by auto
      then show ?thesis using e(1) ys by simp
    qed
  qed
qed

subsection \<open>The polling loop\<close>

lemma poll_sleeps_bound: "n \<le> nat (2 * lt) \<Longrightarrow> snd (poll L gets exs lt n) \<le> nat (2 * lt)"
proof (induction L gets exs lt n rule: poll.induct)
  case (1 L gets exs lock_timeout n)
  show ?case
  proof (cases "int n < 2 * lock_timeout")
    case False
    then show ?thesis using "1.prems" by (subst poll.simps) simp
  next
    case True
    then have s: "Suc n \<le> nat (2 * lock_timeout)" by linarith
    show ?thesis
    proof (cases "gets n")
      case (Inl e)
      then show ?thesis using True "1.prems" by (subst poll.simps) simp
    next
      case (Inr val)
      note g = this
      show ?thesis
      proof (cases "val_truthy val")
        case True
        then show ?thesis using g \<open>int n < 2 * lock_timeout\<close> "1.prems" by (subst poll.simps) simp
      next
        case False
        note nt = this
        show ?thesis
        proof (cases "exs n")
          case (Inl e)
          then show ?thesis using g nt \<open>int n < 2 * lock_timeout\<close> "1.prems" by (subst poll.simps) simp
        next
          case (Inr present)
          show ?thesis
          proof (cases present)
            case True
            have "snd (poll L gets exs lock_timeout (Suc n)) \<le> nat (2 * lock_timeout)"
              using "1.IH"[OF \<open>int n < 2 * lock_timeout\<close> g nt Inr _ s] True by simp
            then show ?thesis using g nt Inr True \<open>int n < 2 * lock_timeout\<close>
              by (subst poll.simps) simp
          next
            case False
            then show ?thesis using g nt Inr \<open>int n < 2 * lock_timeout\<close> "1.prems"
              by (subst poll.simps) simp
          qed
        qed
      qed
    qed
  qed
qed

lemma poll_waiting_step:
  assumes "waiting gets exs n" "int n < 2 * lt"
  shows "poll L gets exs lt n = poll L gets exs lt (Suc n)"
  using assms by (subst poll.simps) (auto simp: waiting_def split: sum.splits)

lemma poll_skip:
  assumes "\<forall>j. n \<le> j \<and> j < n + m \<longrightarrow> waiting gets exs j" "int (n + m) \<le> 2 * lt"
  shows "poll L gets exs lt n = poll L gets exs lt (n + m)"
  using assms
proof (induction m)
  case 0
  then show ?case by simp
next
  case (Suc m)
  have "poll L gets exs lt n = poll L gets exs lt (n + m)"
    using Suc by simp
  also have "\<dots> = poll L gets exs lt (Suc (n + m))"
    using Suc.prems by (intro poll_waiting_step) auto
  finally show ?case by simp
qed

lemma poll_from_start:
  assumes "\<forall>j<k. waiting gets exs j" "int k \<le> 2 * lt"
  shows "poll L gets exs lt 0 = poll L gets exs lt k"
  using poll_skip[of 0 k gets exs lt L] assms by simp


lemma get_sleeps_bound: "snd (snd (get L others fault now w lt a c)) \<le> nat (2 * lt)"
proof -
  have "snd (poll L gets exs lt 0) \<le> nat (2 * lt)" for gets exs
    by (rule poll_sleeps_bound) simp
  then show ?thesis
    unfolding get_def Let_def
    by (simp split: option.splits sum.splits prod.splits)
qed

lemma poll_found:
  assumes "\<forall>j<k. waiting gets exs j" "int k < 2 * lt" "gets k = Inr (Some s)" "s \<noteq> []"
  shows "poll L gets exs lt 0 = (Inr (decode L s), k)"
proof -
  have "poll L gets exs lt 0 = poll L gets exs lt k"
    using poll_from_start[of k gets exs lt L] assms(1,2) by simp
  also have "\<dots> = (Inr (decode L s), k)"
    using assms(2,3,4) by (subst poll.simps) simp
  finally show ?thesis .
qed

lemma poll_lock_gone:
  assumes "\<forall>j<k. waiting gets exs j" "int k < 2 * lt" "gets k = Inr val" "\<not> val_truthy val"
    and "exs k = Inr False"
  shows "poll L gets exs lt 0 = (Inr JNull, k)"
proof -
  have "poll L gets exs lt 0 = poll L gets exs lt k"
    using poll_from_start[of k gets exs lt L] assms(1,2) by simp
  also have "\<dots> = (Inr JNull, k)"
    using assms(2,3,4,5) by (subst poll.simps) simp
  finally show ?thesis .
qed

lemma poll_timeout:
  assumes "\<forall>j. int j < 2 * lt \<longrightarrow> waiting gets exs j"
  shows "poll L gets exs lt 0 = (Inr JNull, nat (2 * lt))"
proof -
  have "poll L gets exs lt 0 = poll L gets exs lt (nat (2 * lt))"
  proof (cases "0 \<le> lt")
    case True
    have "\<forall>j<nat (2 * lt). waiting gets exs j" using assms by auto
    moreover have "int (nat (2 * lt)) \<le> 2 * lt" using True by simp
    ultimately show ?thesis by (rule poll_from_start)
  next
    case False
    then show ?thesis by simp
  qed
  also have "\<dots> = (Inr JNull, nat (2 * lt))"
    by (subst poll.simps) simp
  finally show ?thesis .
qed

lemma summarize_chapter_waiter:
  assumes "get L (sleeping E 0) (store_fault E 0) (clock E 0) True 30
             [StrArg ''summarize'', StrArg q] (meanwhile (before E 0) c) = (Inr cached, c1, n1)"
    and "\<not> truthy cached"
    and "acquire_lock L (store_fault E 1) (clock E 1) 30 [StrArg ''summarize'', StrArg q]
             (meanwhile (before E 1) c1) = (False, c2)"
    and "get L (sleeping E 2) (store_fault E 2) (clock E 2) True 30
             [StrArg ''summarize'', StrArg q] (meanwhile (before E 2) c2) = (Inr cached2, c3, n2)"
  shows "summarize_chapter L E q c =
           (if truthy cached2 then (Inr cached2, c3) else compute_summary L E q False c3)"
  using assms by (simp add: summarize_chapter_def)

subsection \<open>The lock invariant\<close>

lemma acquire_fresh:
  assumes "\<not> lock_present L t a c" "0 < ttl" "\<not> fault 0"
  shows "fst (acquire_lock L fault t ttl a c) \<and>
         held L (t + of_int ttl) a (snd (acquire_lock L fault t ttl a c))"
proof (cases "shared c")
  case None
  then show ?thesis using assms
    by (simp add: acquire_lock_local lock_present_def held_def shared_mem_upd update_conv')
next
  case (Some db)
  then show ?thesis using assms shared_SomeD[OF Some]
    by (simp add: acquire_lock_shared lock_present_def held_def shared_redis_upd
        r_set_nx_fresh update_conv')
qed

lemma held_refuses:
  assumes "held L d a c" "t' < d"
  shows "\<not> fst (acquire_lock L fault t' ttl' a c)"
proof (cases "shared c")
  case None
  then show ?thesis using assms by (simp add: acquire_lock_local held_def)
next
  case (Some db)
  then obtain v where "map_of db (redis_key (hash_key L a) @ '':lock'') = Some (v, d)"
    using assms by (auto simp: held_def split: option.splits)
  from r_set_nx_held[OF this assms(2), of "''1''" ttl'] show ?thesis
    using Some by (auto simp add: acquire_lock_shared)
qed

lemma held_acquire:
  assumes "held L d a c" "u < d"
  shows "held L d a (snd (acquire_lock L fault u ttl' b c))"
proof (cases "shared c")
  case None
  then show ?thesis using assms
    by (simp add: acquire_lock_local held_def shared_mem_upd update_conv')
next
  case (Some db)
  then obtain v where v: "map_of db (redis_key (hash_key L a) @ '':lock'') = Some (v, d)"
    using assms by (auto simp: held_def split: option.splits)
  show ?thesis
  proof (cases "r_set_nx db u (redis_key (hash_key L b) @ '':lock'') ''1'' ttl'")
    case (Inl e)
    then show ?thesis using Some assms by (simp add: acquire_lock_shared)
  next
    case (Inr p)
    obtain created db' where p: "p = (created, db')" by (cases p)
    have "map_of db' (redis_key (hash_key L a) @ '':lock'') = Some (v, d)"
      using r_set_nx_keeps[OF v assms(2)] Inr p by simp
    then show ?thesis using Some assms Inr p shared_SomeD[OF Some]
      by (simp add: acquire_lock_shared held_def shared_redis_upd)
  qed
qed

lemma held_get:
  assumes "held L d a c" "\<forall>s. length (md5_hex L s) = 32"
  shows "held L d a (fst (snd (get L quiet fault u w lt b c)))"
proof (cases "use_redis c")
  case True
  then show ?thesis using assms(1) by (simp add: get_shared_state)
next
  case False
  have "length (hash_key L b) \<noteq> length (''lock:'' @ hash_key L a)"
    using assms(2) by (simp add: hash_key_def)
  then have ne: "hash_key L b \<noteq> ''lock:'' @ hash_key L a" by auto
  have sh: "shared c = None" using False by (simp add: shared_def)
  show ?thesis using False assms(1) ne sh
    by (simp add: get_local held_def shared_mem_upd delete_conv' split: option.splits)
qed

lemma set_shared_other:
  "k \<noteq> rk \<Longrightarrow> k \<noteq> rk @ '':lock'' \<Longrightarrow>
   map_of (fst (set_shared L fault now ttl rk v db)) k = map_of db k"
  by (simp add: set_shared_def r_set_def r_delete_def update_conv' delete_conv'
      split: option.splits)

lemma held_set:
  assumes "held L d a c" "\<forall>s. length (md5_hex L s) = 32" "hash_key L b \<noteq> hash_key L a"
  shows "held L d a (set_cache L fault u v b c)"
proof (cases "shared c")
  case None
  have "length (hash_key L b) \<noteq> length (''lock:'' @ hash_key L a)"
    using assms(2) by (simp add: hash_key_def)
  then have ne: "hash_key L b \<noteq> ''lock:'' @ hash_key L a" by auto
  show ?thesis using None assms(1) ne
    by (simp add: set_cache_local held_def shared_mem_upd update_conv')
next
  case (Some db)
  let ?lk = "redis_key (hash_key L a) @ '':lock''"
  let ?rk = "redis_key (hash_key L b)"
  have "length ?lk \<noteq> length ?rk" using assms(2) by (simp add: hash_key_def redis_key_def)
  then have n1: "?lk \<noteq> ?rk" by metis
  have n2: "?lk \<noteq> ?rk @ '':lock''" using assms(3) by (simp add: redis_key_def)
  have m: "map_of (fst (set_shared L fault u (ttl_seconds c) ?rk v db)) ?lk = map_of db ?lk"
    by (rule set_shared_other[OF n1 n2])
  show ?thesis using Some assms(1) m shared_SomeD[OF Some]
    by (simp add: set_cache_shared[OF Some] held_def shared_def)
qed

lemma held_release:
  assumes "held L d a c" "hash_key L b \<noteq> hash_key L a"
  shows "held L d a (release_lock L fault b c)"
proof (cases "shared c")
  case None
  then show ?thesis using assms
    by (simp add: release_lock_def Let_def held_def shared_mem_upd delete_conv')
next
  case (Some db)
  have n: "redis_key (hash_key L a) @ '':lock'' \<noteq> redis_key (hash_key L b) @ '':lock''"
    using assms(2) by (simp add: redis_key_def)
  show ?thesis using Some assms(1) n shared_SomeD[OF Some]
    by (simp add: release_lock_def Let_def held_def shared_def r_delete_def delete_conv')
qed

lemma held_step:
  assumes "\<forall>s. length (md5_hex L s) = 32" "held L d a c" "u < d" "spares L a q"
  shows "held L d a (step L (u, f, q) c)"
proof (cases q)
  case (Get b w lt)
  then show ?thesis using held_get[OF assms(2,1)] by simp
next
  case (Acquire b ttl')
  then show ?thesis using held_acquire[OF assms(2,3)] by simp
next
  case Count
  then show ?thesis using assms(2) by simp
next
  case (Set v b)
  then show ?thesis using held_set[OF assms(2,1)] assms(4) by simp
next
  case (Release b)
  then show ?thesis using held_release[OF assms(2)] assms(4) by simp
qed

lemma held_run:
  assumes "\<forall>s. length (md5_hex L s) = 32"
    and "\<forall>r \<in> set rs. fst r < d \<and> spares L a (snd (snd r))"
    and "held L d a c"
  shows "held L d a (run L rs c)"
  using assms(2,3) unfolding run_def
proof (induction rs arbitrary: c)
  case Nil
  then show ?case by simp
next
  case (Cons r rs)
  obtain u f q where r: "r = (u, f, q)" by (cases r)
  have "u < d" "spares L a q" using Cons.prems(1) r by simp_all
  then have "held L d a (step L r c)"
    unfolding r using held_step[OF assms(1) Cons.prems(2)] by simp
  moreover have "\<forall>r \<in> set rs. fst r < d \<and> spares L a (snd (snd r))"
    using Cons.prems(1) by simp
  ultimately have "held L d a (fold (step L) rs (step L r c))"
    using Cons.IH by blast
  then show ?case by simp
qed

subsection \<open>The polling loop on the shared store\<close>

lemma get_shared_poll:
  assumes "use_redis c" "redis c = Some db" "\<forall>i. \<not> fault i"
    and "\<not> val_truthy (r_get db now (redis_key (hash_key L a)))"
  shows "get L others fault now True lt a c =
           (let r = poll L
                      (\<lambda>n. Inr (r_get (world others db n) (now + of_nat n / 2)
                                   (redis_key (hash_key L a))))
                      (\<lambda>n. Inr (r_exists (world others db n) (now + of_nat n / 2)
                                   (redis_key (hash_key L a) @ '':lock'')))
                      lt 0
            in (fst r, c\<lparr>redis := Some (world others db (snd r))\<rparr>, snd r))"
  using assms by (simp add: get_def Let_def call_def)

lemma get_shared_poll':
  assumes "use_redis c" "redis c = Some db" "\<forall>i. \<not> fault i"
    and "\<not> val_truthy (entry_at L others db now a 0)"
  shows "get L others fault now True lt a c =
           (let r = poll L (\<lambda>n. Inr (entry_at L others db now a n))
                      (\<lambda>n. Inr (lock_at L others db now a n)) lt 0
            in (fst r, c\<lparr>redis := Some (world others db (snd r))\<rparr>, snd r))"
proof -
  have "\<not> val_truthy (r_get db now (redis_key (hash_key L a)))"
    using assms(4) by (simp add: entry_at_def)
  from get_shared_poll[OF assms(1,2,3) this] show ?thesis
    by (simp add: entry_at_def lock_at_def)
qed

lemma waiting_rounds:
  "waiting (\<lambda>n. Inr (entry_at L others db now a n)) (\<lambda>n. Inr (lock_at L others db now a n)) j =
     (\<not> val_truthy (entry_at L others db now a j) \<and> lock_at L others db now a j)"
  by (simp add: waiting_def)

lemma get_found:
  assumes "use_redis c" "redis c = Some db" "\<forall>i. \<not> fault i"
    and "\<forall>j<k. \<not> val_truthy (entry_at L others db now a j) \<and> lock_at L others db now a j"
    and "0 < k" "int k < 2 * lt"
    and "entry_at L others db now a k = Some s" "s \<noteq> []"
  shows "get L others fault now True lt a c =
           (Inr (decode L s), c\<lparr>redis := Some (world others db k)\<rparr>, k)"
proof -
  have 0: "\<not> val_truthy (entry_at L others db now a 0)" using assms(4,5) by simp
  have "poll L (\<lambda>n. Inr (entry_at L others db now a n))
          (\<lambda>n. Inr (lock_at L others db now a n)) lt 0 = (Inr (decode L s), k)"
    by (rule poll_found) (use assms(4,6,7,8) in \<open>simp_all add: waiting_rounds\<close>)
  then show ?thesis using get_shared_poll'[OF assms(1,2,3) 0] by simp
qed

lemma get_lock_gone:
  assumes "use_redis c" "redis c = Some db" "\<forall>i. \<not> fault i"
    and "\<forall>j<k. \<not> val_truthy (entry_at L others db now a j) \<and> lock_at L others db now a j"
    and "int k < 2 * lt"
    and "\<not> val_truthy (entry_at L others db now a k)" "\<not> lock_at L others db now a k"
  shows "get L others fault now True lt a c =
           (Inr JNull, c\<lparr>redis := Some (world others db k)\<rparr>, k)"
proof -
  have 0: "\<not> val_truthy (entry_at L others db now a 0)"
    using assms(4,6) by (cases k) simp_all
  have "poll L (\<lambda>n. Inr (entry_at L others db now a n))
          (\<lambda>n. Inr (lock_at L others db now a n)) lt 0 = (Inr JNull, k)"
    by (rule poll_lock_gone[where val = "entry_at L others db now a k"])
       (use assms(4,5,6,7) in \<open>simp_all add: waiting_rounds\<close>)
  then show ?thesis using get_shared_poll'[OF assms(1,2,3) 0] by simp
qed

lemma get_timeout:
  assumes "use_redis c" "redis c = Some db" "\<forall>i. \<not> fault i"
    and "\<forall>j. int j < 2 * lt \<longrightarrow>
           \<not> val_truthy (entry_at L others db now a j) \<and> lock_at L others db now a j"
    and "0 < lt"
  shows "get L others fault now True lt a c =
           (Inr JNull, c\<lparr>redis := Some (world others db (nat (2 * lt)))\<rparr>, nat (2 * lt))"
proof -
  have 0: "\<not> val_truthy (entry_at L others db now a 0)" using assms(4,5) by simp
  have "poll L (\<lambda>n. Inr (entry_at L others db now a n))
          (\<lambda>n. Inr (lock_at L others db now a n)) lt 0 = (Inr JNull, nat (2 * lt))"
    by (rule poll_timeout) (use assms(4) in \<open>simp add: waiting_rounds\<close>)
  then show ?thesis using get_shared_poll'[OF assms(1,2,3) 0] by simp
qed

section \<open>The claims\<close>

text \<open>
  C1. Mutual exclusion of the coalescing lock: once \<open>acquire_lock\<close> has returned true for a
  key, every further \<open>acquire_lock\<close> for it returns false until \<open>release_lock\<close> or \<open>set\<close>
  releases the lock or its time-to-live elapses. As stated this fails: \<open>clear()\<close> deletes
  every record of the cache, the lock records among them, so after \<open>acquire_lock\<close> at time 0
  with a time-to-live of 60 seconds and \<open>clear()\<close> at time 1, \<open>acquire_lock\<close> at time 2
  returns true again, in both variants. And of two threads in the local branch, the second
  testing the mapping before the first has written to it, both return true.
\<close>

theorem clear_frees_lock:
  "fst (acquire_lock sample_lib (\<lambda>i. False) 0 60 [StrArg ''revision'', StrArg ''2'']
          sample_shared) \<and>
   fst (acquire_lock sample_lib (\<lambda>i. False) 2 60 [StrArg ''revision'', StrArg ''2'']
          (clear (\<lambda>i. False) 1
             (snd (acquire_lock sample_lib (\<lambda>i. False) 0 60
                    [StrArg ''revision'', StrArg ''2''] sample_shared)))) \<and>
   fst (acquire_lock sample_lib (\<lambda>i. False) 0 60 [StrArg ''revision'', StrArg ''2'']
          sample_local) \<and>
   fst (acquire_lock sample_lib (\<lambda>i. False) 2 60 [StrArg ''revision'', StrArg ''2'']
          (clear (\<lambda>i. False) 1
             (snd (acquire_lock sample_lib (\<lambda>i. False) 0 60
                    [StrArg ''revision'', StrArg ''2''] sample_local)))) \<and>
   fst (racing_acquire sample_lib 0 0 [StrArg ''revision'', StrArg ''2''] sample_local) \<and>
   fst (snd (racing_acquire sample_lib 0 0 [StrArg ''revision'', StrArg ''2''] sample_local))"
  by (simp add: sample_shared_def sample_local_def init_def acquire_lock_def lock_check_def
      lock_write_def racing_acquire_def clear_def shared_def r_set_nx_def r_exists_def r_get_def
      r_keys_def r_delete_def redis_key_def Let_def)

text \<open>
  C1, amended. For calls made one after another, as the shared store orders them and as
  threads that do not interleave inside the local branch make them: when no lock record is present for a key (in
  the shared store no live record, in the local mapping no lock entry of any age),
  \<open>acquire_lock\<close> returns true, provided the store answers and the time-to-live is
  positive; and after it every further \<open>acquire_lock\<close> for the key made before the
  time-to-live has elapsed returns a false value, whatever \<open>get\<close>, \<open>acquire_lock\<close> and count
  calls for any keys, and \<open>set\<close> and \<open>release_lock\<close> calls for other keys, come in between.
  With no call in between and both calls at the same time, exactly the first of two callers
  wins. The digest has a fixed length, as the hexadecimal form of MD5 has.
\<close>

theorem acquire_lock_mutual_exclusion:
  assumes "\<forall>s. length (md5_hex L s) = 32"
    and "\<not> lock_present L t a c"
    and "0 < ttl" and "\<not> fault 0"
    and "\<forall>r \<in> set rs. fst r < t + of_int ttl \<and> spares L a (snd (snd r))"
    and "t' < t + of_int ttl"
  shows "fst (acquire_lock L fault t ttl a c) \<and>
         \<not> fst (acquire_lock L fault' t' ttl' a
                  (run L rs (snd (acquire_lock L fault t ttl a c))))"
proof -
  have 1: "fst (acquire_lock L fault t ttl a c)"
    and 2: "held L (t + of_int ttl) a (snd (acquire_lock L fault t ttl a c))"
    using acquire_fresh[of L t a c ttl fault] assms(2,3,4) by simp_all
  have "held L (t + of_int ttl) a (run L rs (snd (acquire_lock L fault t ttl a c)))"
    by (rule held_run[OF assms(1) assms(5) 2])
  from held_refuses[OF this assms(6)] 1 show ?thesis by simp
qed

theorem acquire_lock_mutual_exclusion_witness:
  "fst (acquire_lock sample_lib (\<lambda>i. False) 0 60 [StrArg ''revision'', StrArg ''2'']
          sample_shared) \<and>
   \<not> fst (acquire_lock sample_lib (\<lambda>i. False) 59 60 [StrArg ''revision'', StrArg ''2'']
           (run sample_lib
              [(0, \<lambda>i. False, Acquire [StrArg ''revision'', StrArg ''2''] 60),
               (1, \<lambda>i. False, Get [StrArg ''revision'', StrArg ''2''] False 30),
               (2, \<lambda>i. False, Set sample_value [StrArg ''summarize'', StrArg ''1'']),
               (3, \<lambda>i. False, Release [StrArg ''summarize'', StrArg ''1''])]
              (snd (acquire_lock sample_lib (\<lambda>i. False) 0 60
                     [StrArg ''revision'', StrArg ''2''] sample_shared))))"
proof -
  have h1: "\<forall>s. length (md5_hex sample_lib s) = 32"
    by (simp add: sample_lib_def min_def)
  have h2: "\<not> lock_present sample_lib 0 [StrArg ''revision'', StrArg ''2''] sample_shared"
    by (simp add: lock_present_def sample_shared_def init_def shared_def r_exists_def r_get_def)
  have h3: "(0::int) < 60" by simp
  have h4: "\<not> (\<lambda>i::nat. False) 0" by simp
  have ne: "hash_key sample_lib [StrArg ''summarize'', StrArg ''1''] \<noteq>
            hash_key sample_lib [StrArg ''revision'', StrArg ''2'']"
    by (simp add: hash_key_def key_str_def sample_lib_def)
  have h5: "\<forall>r \<in> set [(0::rat, \<lambda>i::nat. False, Acquire [StrArg ''revision'', StrArg ''2''] 60),
               (1, \<lambda>i. False, Get [StrArg ''revision'', StrArg ''2''] False 30),
               (2, \<lambda>i. False, Set sample_value [StrArg ''summarize'', StrArg ''1'']),
               (3, \<lambda>i. False, Release [StrArg ''summarize'', StrArg ''1''])].
             fst r < 0 + of_int 60 \<and>
             spares sample_lib [StrArg ''revision'', StrArg ''2''] (snd (snd r))"
    using ne by simp
  have h6: "(59::rat) < 0 + of_int 60" by simp
  show ?thesis
    by (rule acquire_lock_mutual_exclusion
          [where L = sample_lib and fault = "\<lambda>i. False", OF h1 h2 h3 h4 h5 h6])
qed

text \<open>
  C2. \<open>set\<close> releases the coalescing lock, in both variants. In the local variant it does
  not: \<open>set\<close> writes the entry and leaves \<open>lock:<key>\<close> in the mapping, although its
  docstring says that it also removes the lock. After \<open>acquire_lock\<close> and \<open>set\<close> for the
  same arguments, \<open>acquire_lock\<close> still returns false.
\<close>

theorem set_local_keeps_lock:
  "fst (acquire_lock sample_lib (\<lambda>i. False) 0 30 [StrArg ''summarize'', StrArg ''1'']
          sample_local) \<and>
   \<not> fst (acquire_lock sample_lib (\<lambda>i. False) 2 30 [StrArg ''summarize'', StrArg ''1'']
           (set_cache sample_lib (\<lambda>i. False) 1 sample_value
              [StrArg ''summarize'', StrArg ''1'']
              (snd (acquire_lock sample_lib (\<lambda>i. False) 0 30
                     [StrArg ''summarize'', StrArg ''1''] sample_local))))"
  by (simp add: sample_local_def init_def acquire_lock_def lock_check_def lock_write_def set_cache_def shared_def Let_def)

text \<open>
  C3. Lock self-healing, in both variants. In the local variant \<open>acquire_lock\<close> stores a
  timestamp with the lock entry and never reads it, and \<open>lock_ttl\<close> is not used: a lock
  taken at time 0 with a time-to-live of 30 seconds still refuses a caller at time 31 and
  at time 100000.
\<close>

theorem local_lock_never_expires:
  "fst (acquire_lock sample_lib (\<lambda>i. False) 0 30 [StrArg ''summarize'', StrArg ''1'']
          sample_local) \<and>
   \<not> fst (acquire_lock sample_lib (\<lambda>i. False) 31 30 [StrArg ''summarize'', StrArg ''1'']
           (snd (acquire_lock sample_lib (\<lambda>i. False) 0 30
                  [StrArg ''summarize'', StrArg ''1''] sample_local))) \<and>
   \<not> fst (acquire_lock sample_lib (\<lambda>i. False) 100000 30 [StrArg ''summarize'', StrArg ''1'']
           (snd (acquire_lock sample_lib (\<lambda>i. False) 0 30
                  [StrArg ''summarize'', StrArg ''1''] sample_local)))"
  by (simp add: sample_local_def init_def acquire_lock_def lock_check_def lock_write_def shared_def Let_def)

text \<open>
  C4. Errors of the store never escape the cache. \<open>get\<close> calls the store outside any
  \<open>try\<close> block: when the first read raises, \<open>get\<close> raises too instead of returning
  \<open>None\<close>; so does the read inside the polling loop. The other operations catch the
  error.
\<close>

theorem get_propagates_store_error:
  "fst (get sample_lib quiet (\<lambda>i. i = 0) 0 True 30 [StrArg ''summarize'', StrArg ''1'']
          sample_shared) = Inl StoreError \<and>
   fst (get sample_lib quiet (\<lambda>i. i = 1) 0 True 30 [StrArg ''summarize'', StrArg ''1'']
          sample_shared) = Inl StoreError"
  by (simp add: sample_shared_def init_def get_def call_def Let_def r_get_def poll.simps)

text \<open>
  C6. Round-trip: \<open>get(a)\<close> after \<open>set(v, a)\<close> returns \<open>v\<close> when time has not advanced beyond
  the time-to-live. As stated this fails at the boundary: with a time-to-live of 600 seconds,
  \<open>set\<close> at time 0 and \<open>get\<close> at time 600 (an advance that is not beyond the time-to-live),
  the local variant computes \<open>600.0 - 0.0 < 600\<close>, which is false, deletes the entry and
  returns \<open>None\<close>.
\<close>

theorem roundtrip_fails_at_ttl:
  "ttl_seconds sample_local = 600 \<and>
   fst (get sample_lib quiet (\<lambda>i. False) 600 True 30 [StrArg ''summarize'', StrArg ''1'']
          (set_cache sample_lib (\<lambda>i. False) 0 sample_value [StrArg ''summarize'', StrArg ''1'']
             sample_local)) = Inr JNull"
  by (simp add: sample_local_def init_def set_cache_def get_def shared_def sample_lib_def Let_def)

text \<open>
  C6, amended. After \<open>set(v, a)\<close> at time \<open>t\<close>, \<open>get(a)\<close> at time \<open>t'\<close> returns \<open>v\<close>, for a
  value that \<open>json.dumps\<close> turns into a text that \<open>json.loads\<close> turns back into it, when the
  elapsed time as the cache measures it is strictly below the time-to-live: in the local
  variant the difference \<open>t' - t\<close> as the subtraction of doubles computes it, in the shared
  variant the instant \<open>t'\<close> against the deadline \<open>t + ttl_seconds\<close> of the record, with a store
  that answers the write and the read. This holds whatever the other workers do to the store
  while \<open>get\<close> runs.
\<close>

theorem set_get_roundtrip:
  assumes "use_redis c \<longrightarrow>
             redis c \<noteq> None \<and> \<not> fault 0 \<and> \<not> fault' 0 \<and> t \<le> t' \<and>
             t' < t + of_int (ttl_seconds c)"
    and "\<not> use_redis c \<longrightarrow> to_double L (t' - t) < of_int (ttl_seconds c)"
    and "json_dumps L v = Some s" and "s \<noteq> []" and "json_loads L s = Some v"
  shows "fst (get L others fault' t' w lt a (set_cache L fault t v a c)) = Inr v"
proof (cases "use_redis c")
  case False
  then have sh: "shared c = None" by (simp add: shared_def)
  show ?thesis using False assms(2)
    by (simp add: set_cache_local[OF sh] get_local update_conv')
next
  case True
  then obtain db where db: "redis c = Some db" and nf: "\<not> fault 0" and nf': "\<not> fault' 0"
    and le: "t \<le> t'" and lt: "t' < t + of_int (ttl_seconds c)"
    using assms(1) by auto
  have sh: "shared c = Some db" using True db by (simp add: shared_def)
  have pos: "0 < ttl_seconds c"
  proof -
    have "(0::rat) < of_int (ttl_seconds c)" using le lt by linarith
    then show ?thesis by simp
  qed
  let ?rk = "redis_key (hash_key L a)"
  let ?r = "set_shared L fault t (ttl_seconds c) ?rk v db"
  have m: "map_of (fst ?r) ?rk = Some (s, t + of_int (ttl_seconds c))"
    using set_shared_ok[of L v s fault "ttl_seconds c" t ?rk db] assms(3) nf pos by simp
  have g: "r_get (fst ?r) t' ?rk = Some s"
    using m lt by (simp add: r_get_def)
  let ?c = "set_cache L fault t v a c"
  have u: "use_redis ?c" and r: "redis ?c = Some (fst ?r)"
    using True by (simp_all add: set_cache_shared[OF sh])
  show ?thesis
    using get_shared_hit[of ?c "fst ?r" fault' t' L a s others w lt] u r nf' g assms(4) assms(5)
    by (simp add: decode_def)
qed

theorem set_get_roundtrip_witness:
  \<open>fst (get sample_lib quiet (\<lambda>i. False) 599 True 30 [StrArg ''summarize'', StrArg ''1'']
          (set_cache sample_lib (\<lambda>i. False) 0 sample_value [StrArg ''summarize'', StrArg ''1'']
             sample_shared)) = Inr sample_value \<and>
   fst (get sample_lib quiet (\<lambda>i. False) 599 True 30 [StrArg ''summarize'', StrArg ''1'']
          (set_cache sample_lib (\<lambda>i. False) 0 sample_value [StrArg ''summarize'', StrArg ''1'']
             sample_local)) = Inr sample_value\<close>
proof -
  have d: \<open>json_dumps sample_lib sample_value = Some ''{"english": "X", "swahili": "Y"}''\<close>
    by (simp add: sample_lib_def)
  have n: \<open>''{"english": "X", "swahili": "Y"}'' \<noteq> []\<close> by simp
  have l: \<open>json_loads sample_lib ''{"english": "X", "swahili": "Y"}'' = Some sample_value\<close>
    by (simp add: sample_lib_def)
  have s1: "use_redis sample_shared \<longrightarrow>
              redis sample_shared \<noteq> None \<and> \<not> (\<lambda>i::nat. False) 0 \<and> \<not> (\<lambda>i::nat. False) 0 \<and>
              (0::rat) \<le> 599 \<and> (599::rat) < 0 + of_int (ttl_seconds sample_shared)"
    by (simp add: sample_shared_def init_def)
  have s2: "\<not> use_redis sample_shared \<longrightarrow>
              to_double sample_lib ((599::rat) - 0) < of_int (ttl_seconds sample_shared)"
    by (simp add: sample_shared_def init_def)
  have l1: "use_redis sample_local \<longrightarrow>
              redis sample_local \<noteq> None \<and> \<not> (\<lambda>i::nat. False) 0 \<and> \<not> (\<lambda>i::nat. False) 0 \<and>
              (0::rat) \<le> 599 \<and> (599::rat) < 0 + of_int (ttl_seconds sample_local)"
    by (simp add: sample_local_def init_def)
  have l2: "\<not> use_redis sample_local \<longrightarrow>
              to_double sample_lib ((599::rat) - 0) < of_int (ttl_seconds sample_local)"
    by (simp add: sample_local_def init_def sample_lib_def)
  show ?thesis
    by (rule conjI)
       (rule set_get_roundtrip[where fault = "\<lambda>i. False" and fault' = "\<lambda>i. False",
                               OF s1 s2 d n l],
        rule set_get_roundtrip[where fault = "\<lambda>i. False" and fault' = "\<lambda>i. False",
                               OF l1 l2 d n l])
qed

text \<open>
  C7. Expiry with lazy eviction. After \<open>set(v, a)\<close> at time \<open>t\<close>, \<open>get(a)\<close> at a time later
  than \<open>t + ttl_seconds\<close> returns \<open>None\<close>, when nobody else writes in between; in the local
  variant that read deletes the entry and leaves the entries of all other keys as they were.
  In the shared variant the value is one that \<open>json.dumps\<close> accepts, the time-to-live is
  positive and the store answers. In the local variant the subtraction of doubles rounds
  monotonically and the time-to-live is an integer that doubles represent.
\<close>

theorem entry_expiry:
  assumes "use_redis c \<longrightarrow>
             redis c \<noteq> None \<and> json_dumps L v \<noteq> None \<and> 0 < ttl_seconds c \<and> \<not> fault 0"
    and "\<not> use_redis c \<longrightarrow> ieee_rounding L \<and> \<bar>ttl_seconds c\<bar> \<le> 2 ^ 53"
    and "\<forall>i. \<not> fault' i"
    and "t + of_int (ttl_seconds c) < t'"
  shows "fst (get L quiet fault' t' w lt a (set_cache L fault t v a c)) = Inr JNull \<and>
         (\<not> use_redis c \<longrightarrow>
            map_of (mem_cache (fst (snd (get L quiet fault' t' w lt a
                                           (set_cache L fault t v a c)))))
              (hash_key L a) = None \<and>
            (\<forall>k. k \<noteq> hash_key L a \<longrightarrow>
               map_of (mem_cache (fst (snd (get L quiet fault' t' w lt a
                                              (set_cache L fault t v a c))))) k =
               map_of (mem_cache (set_cache L fault t v a c)) k))"
proof (cases "use_redis c")
  case False
  then have sh: "shared c = None" by (simp add: shared_def)
  have mono: "\<And>x y. x \<le> y \<Longrightarrow> to_double L x \<le> to_double L y"
    and keep: "to_double L (of_int (ttl_seconds c)) = of_int (ttl_seconds c)"
    using assms(2) False by (auto simp: ieee_rounding_def)
  have "to_double L (of_int (ttl_seconds c)) \<le> to_double L (t' - t)"
    by (rule mono) (use assms(4) in linarith)
  then have exp: "\<not> to_double L (t' - t) < of_int (ttl_seconds c)"
    using keep by simp
  show ?thesis using False exp
    by (simp add: set_cache_local[OF sh] get_local update_conv' delete_conv')
next
  case True
  then obtain db s where db: "redis c = Some db" and s: "json_dumps L v = Some s"
    and pos: "0 < ttl_seconds c" and nf: "\<not> fault 0"
    using assms(1) by auto
  have sh: "shared c = Some db" using True db by (simp add: shared_def)
  let ?rk = "redis_key (hash_key L a)"
  let ?r = "set_shared L fault t (ttl_seconds c) ?rk v db"
  let ?c = "set_cache L fault t v a c"
  have m: "map_of (fst ?r) ?rk = Some (s, t + of_int (ttl_seconds c))"
    using set_shared_ok[of L v s fault "ttl_seconds c" t ?rk db] s nf pos by simp
  have u: "use_redis ?c" and r: "redis ?c = Some (fst ?r)"
    using True by (simp_all add: set_cache_shared[OF sh])
  have gone: "\<not> val_truthy (r_get (fst ?r) u ?rk)" if "t' \<le> u" for u
    using m that assms(4) by (simp add: r_get_def)
  have "fst (get L quiet fault' t' w lt a ?c) = Inr JNull"
    using get_shared_miss[of ?c "fst ?r" fault' t' L a w lt] u r assms(3) gone by blast
  then show ?thesis using True by simp
qed

theorem entry_expiry_witness:
  "fst (get sample_lib quiet (\<lambda>i. False) 601 True 30 [StrArg ''summarize'', StrArg ''1'']
          (set_cache sample_lib (\<lambda>i. False) 0 sample_value [StrArg ''summarize'', StrArg ''1'']
             sample_shared)) = Inr JNull \<and>
   fst (get sample_lib quiet (\<lambda>i. False) 601 True 30 [StrArg ''summarize'', StrArg ''1'']
          (set_cache sample_lib (\<lambda>i. False) 0 sample_value [StrArg ''summarize'', StrArg ''1'']
             sample_local)) = Inr JNull \<and>
   map_of (mem_cache (fst (snd (get sample_lib quiet (\<lambda>i. False) 601 True 30
             [StrArg ''summarize'', StrArg ''1'']
             (set_cache sample_lib (\<lambda>i. False) 0 sample_value
                [StrArg ''summarize'', StrArg ''1''] sample_local)))))
     (hash_key sample_lib [StrArg ''summarize'', StrArg ''1'']) = None"
proof -
  have f: "\<forall>i. \<not> (\<lambda>i::nat. False) i" by simp
  have s0: "use_redis sample_shared" by (simp add: sample_shared_def init_def)
  have s1: "use_redis sample_shared \<longrightarrow>
              redis sample_shared \<noteq> None \<and> json_dumps sample_lib sample_value \<noteq> None \<and>
              0 < ttl_seconds sample_shared \<and> \<not> (\<lambda>i::nat. False) 0"
    by (simp add: sample_shared_def init_def sample_lib_def)
  have s1': "\<not> use_redis sample_shared \<longrightarrow>
               ieee_rounding sample_lib \<and> \<bar>ttl_seconds sample_shared\<bar> \<le> 2 ^ 53"
    using s0 by simp
  have s2: "(0::rat) + of_int (ttl_seconds sample_shared) < 601"
    by (simp add: sample_shared_def init_def)
  have l0: "\<not> use_redis sample_local" by (simp add: sample_local_def init_def)
  then have l1: "use_redis sample_local \<longrightarrow>
              redis sample_local \<noteq> None \<and> json_dumps sample_lib sample_value \<noteq> None \<and>
              0 < ttl_seconds sample_local \<and> \<not> (\<lambda>i::nat. False) 0"
    by simp
  have l1': "\<not> use_redis sample_local \<longrightarrow>
               ieee_rounding sample_lib \<and> \<bar>ttl_seconds sample_local\<bar> \<le> 2 ^ 53"
    by (simp add: ieee_rounding_def sample_lib_def sample_local_def init_def)
  have l2: "(0::rat) + of_int (ttl_seconds sample_local) < 601"
    by (simp add: sample_local_def init_def)
  note sh = entry_expiry[where fault = "\<lambda>i. False" and fault' = "\<lambda>i. False" and w = True and lt = 30
      and a = "[StrArg ''summarize'', StrArg ''1'']", OF s1 s1' f s2]
  note lo = entry_expiry[where fault = "\<lambda>i. False" and fault' = "\<lambda>i. False" and w = True and lt = 30
      and a = "[StrArg ''summarize'', StrArg ''1'']", OF l1 l1' f l2]
  show ?thesis using sh lo l0 by blast
qed

text \<open>
  C10. While the shared variant is active, what \<open>get\<close> returns does not depend on the local
  mapping; so when the write of \<open>set\<close> raised (in \<open>json.dumps\<close> or in the store) and the
  value went to the local mapping, \<open>get\<close> returns what it returned before that \<open>set\<close>.
\<close>

theorem shared_get_ignores_mem_cache:
  assumes "use_redis c"
  shows "fst (get L others fault' t' w lt a (c\<lparr>mem_cache := m\<rparr>)) =
         fst (get L others fault' t' w lt a c) \<and>
         (json_dumps L v = None \<or> fault 0 \<longrightarrow>
            fst (get L others fault' t' w lt a (set_cache L fault t v a c)) =
            fst (get L others fault' t' w lt a c))"
proof -
  have indep: "fst (get L others fault' t' w lt a (c\<lparr>mem_cache := m\<rparr>)) =
               fst (get L others fault' t' w lt a c)"
    for m
    using assms unfolding get_def Let_def
    by (cases "redis c"; simp split: sum.splits)
  have "set_cache L fault t v a c =
          c\<lparr>mem_cache := AList.update (hash_key L a) (v, t) (mem_cache c)\<rparr>"
    if "json_dumps L v = None \<or> fault 0"
  proof (cases "redis c")
    case None
    then have "shared c = None" by (simp add: shared_def)
    then show ?thesis by (rule set_cache_local)
  next
    case (Some db)
    then have sh: "shared c = Some db" using assms by (simp add: shared_def)
    have "set_shared L fault t (ttl_seconds c) (redis_key (hash_key L a)) v db = (db, True)"
      using that by (auto simp: set_shared_def split: option.splits)
    then show ?thesis using Some by (simp add: set_cache_shared[OF sh])
  qed
  then show ?thesis using indep by auto
qed

theorem shared_get_ignores_mem_cache_witness:
  "fst (get sample_lib quiet (\<lambda>i. False) 1 True 30 [StrArg ''summarize'', StrArg ''1'']
          (set_cache sample_lib (\<lambda>i. i = 0) 0 sample_value [StrArg ''summarize'', StrArg ''1'']
             sample_shared)) =
   fst (get sample_lib quiet (\<lambda>i. False) 1 True 30 [StrArg ''summarize'', StrArg ''1'']
          sample_shared) \<and>
   map_of (mem_cache (set_cache sample_lib (\<lambda>i. i = 0) 0 sample_value
             [StrArg ''summarize'', StrArg ''1''] sample_shared))
     (hash_key sample_lib [StrArg ''summarize'', StrArg ''1'']) = Some (sample_value, 0)"
proof -
  have u: "use_redis sample_shared" by (simp add: sample_shared_def init_def)
  have w: "json_dumps sample_lib sample_value = None \<or> (\<lambda>i::nat. i = 0) 0" by simp
  have m: "map_of (mem_cache (set_cache sample_lib (\<lambda>i. i = 0) 0 sample_value
             [StrArg ''summarize'', StrArg ''1''] sample_shared))
     (hash_key sample_lib [StrArg ''summarize'', StrArg ''1'']) = Some (sample_value, 0)"
    by (simp add: sample_shared_def init_def set_cache_def set_shared_def shared_def
        sample_lib_def Let_def)
  show ?thesis
    using shared_get_ignores_mem_cache[where fault = "\<lambda>i. i = 0" and v = sample_value
        and others = quiet, OF u] w m
    by blast
qed

text \<open>
  C9. Bounded wait. A \<open>get\<close> makes at most \<open>2 * lock_timeout\<close> sleeps of half a second,
  whatever the store replies and whatever the other workers do, so it waits at most
  \<open>lock_timeout\<close> seconds (the local variant never sleeps). On the shared store, after a
  first read that misses, \<open>get\<close> reads the entry every half second: in the first round that
  finds the entry it returns the decoded entry; in the first round that finds neither the
  entry nor the lock record it returns \<open>None\<close>; when every round of the window finds the
  lock and no entry it returns \<open>None\<close> after \<open>2 * lock_timeout\<close> sleeps. A handler that did
  not get the lock returns what this second \<open>get\<close> found, and computes on its own when it
  found nothing.
\<close>

theorem get_bounded_wait:
  "snd (snd (get L others fault now w lt a c)) \<le> nat (2 * lt) \<and>
   (use_redis c \<and> redis c = Some db \<and> (\<forall>i. \<not> fault i) \<and>
    (\<forall>j<k. \<not> val_truthy (entry_at L others db now a j) \<and> lock_at L others db now a j) \<and>
    0 < k \<and> int k < 2 * lt \<and> entry_at L others db now a k = Some s \<and> s \<noteq> [] \<longrightarrow>
      get L others fault now True lt a c =
        (Inr (decode L s), c\<lparr>redis := Some (world others db k)\<rparr>, k)) \<and>
   (use_redis c \<and> redis c = Some db \<and> (\<forall>i. \<not> fault i) \<and>
    (\<forall>j<k. \<not> val_truthy (entry_at L others db now a j) \<and> lock_at L others db now a j) \<and>
    int k < 2 * lt \<and> \<not> val_truthy (entry_at L others db now a k) \<and>
    \<not> lock_at L others db now a k \<longrightarrow>
      get L others fault now True lt a c =
        (Inr JNull, c\<lparr>redis := Some (world others db k)\<rparr>, k)) \<and>
   (use_redis c \<and> redis c = Some db \<and> (\<forall>i. \<not> fault i) \<and> 0 < lt \<and>
    (\<forall>j. int j < 2 * lt \<longrightarrow>
       \<not> val_truthy (entry_at L others db now a j) \<and> lock_at L others db now a j) \<longrightarrow>
      get L others fault now True lt a c =
        (Inr JNull, c\<lparr>redis := Some (world others db (nat (2 * lt)))\<rparr>, nat (2 * lt))) \<and>
   (get L (sleeping E 0) (store_fault E 0) (clock E 0) True 30 [StrArg ''summarize'', StrArg q]
      (meanwhile (before E 0) c) = (Inr cached, c1, n1) \<and>
    \<not> truthy cached \<and>
    acquire_lock L (store_fault E 1) (clock E 1) 30 [StrArg ''summarize'', StrArg q]
      (meanwhile (before E 1) c1) = (False, c2) \<and>
    get L (sleeping E 2) (store_fault E 2) (clock E 2) True 30 [StrArg ''summarize'', StrArg q]
      (meanwhile (before E 2) c2) = (Inr cached2, c3, n2) \<longrightarrow>
      summarize_chapter L E q c =
        (if truthy cached2 then (Inr cached2, c3) else compute_summary L E q False c3))"
proof -
  have 1: "snd (snd (get L others fault now w lt a c)) \<le> nat (2 * lt)"
    by (rule get_sleeps_bound)
  have 2: "get L others fault now True lt a c =
        (Inr (decode L s), c\<lparr>redis := Some (world others db k)\<rparr>, k)"
    if "use_redis c \<and> redis c = Some db \<and> (\<forall>i. \<not> fault i) \<and>
        (\<forall>j<k. \<not> val_truthy (entry_at L others db now a j) \<and> lock_at L others db now a j) \<and>
        0 < k \<and> int k < 2 * lt \<and> entry_at L others db now a k = Some s \<and> s \<noteq> []"
    using that get_found[of c db fault k L others now a lt s] by blast
  have 3: "get L others fault now True lt a c =
        (Inr JNull, c\<lparr>redis := Some (world others db k)\<rparr>, k)"
    if "use_redis c \<and> redis c = Some db \<and> (\<forall>i. \<not> fault i) \<and>
        (\<forall>j<k. \<not> val_truthy (entry_at L others db now a j) \<and> lock_at L others db now a j) \<and>
        int k < 2 * lt \<and> \<not> val_truthy (entry_at L others db now a k) \<and>
        \<not> lock_at L others db now a k"
    using that get_lock_gone[of c db fault k L others now a lt] by blast
  have 4: "get L others fault now True lt a c =
        (Inr JNull, c\<lparr>redis := Some (world others db (nat (2 * lt)))\<rparr>, nat (2 * lt))"
    if "use_redis c \<and> redis c = Some db \<and> (\<forall>i. \<not> fault i) \<and> 0 < lt \<and>
        (\<forall>j. int j < 2 * lt \<longrightarrow>
           \<not> val_truthy (entry_at L others db now a j) \<and> lock_at L others db now a j)"
    using that get_timeout[of c db fault lt L others now a] by blast
  have 5: "summarize_chapter L E q c =
        (if truthy cached2 then (Inr cached2, c3) else compute_summary L E q False c3)"
    if "get L (sleeping E 0) (store_fault E 0) (clock E 0) True 30
          [StrArg ''summarize'', StrArg q] (meanwhile (before E 0) c) = (Inr cached, c1, n1) \<and>
        \<not> truthy cached \<and>
        acquire_lock L (store_fault E 1) (clock E 1) 30 [StrArg ''summarize'', StrArg q]
          (meanwhile (before E 1) c1) = (False, c2) \<and>
        get L (sleeping E 2) (store_fault E 2) (clock E 2) True 30
          [StrArg ''summarize'', StrArg q] (meanwhile (before E 2) c2) = (Inr cached2, c3, n2)"
    using that summarize_chapter_waiter[of L E q c cached c1 n1 c2 cached2 c3 n2] by simp
  from 1 2 3 4 5 show ?thesis by (intro conjI impI)
qed

theorem get_bounded_wait_witness:
  "get sample_lib (\<lambda>n. if n = 0 then winner_publish else (\<lambda>db. db)) (\<lambda>i. False) (1 / 2) True 30
     [StrArg ''summarize'', StrArg ''1''] (sample_shared\<lparr>redis := Some (winner_lock [])\<rparr>) =
     (Inr sample_value, sample_shared\<lparr>redis := Some (winner_publish (winner_lock []))\<rparr>, 1) \<and>
   get sample_lib quiet (\<lambda>i. False) 2 True 30 [StrArg ''summarize'', StrArg ''1'']
     (sample_shared\<lparr>redis := Some (winner_lock [])\<rparr>) =
     (Inr JNull, sample_shared\<lparr>redis := Some (winner_lock [])\<rparr>, 57) \<and>
   get sample_lib quiet (\<lambda>i. False) (1 / 2) True 30 [StrArg ''summarize'', StrArg ''1'']
     (sample_shared\<lparr>redis := Some (winner_lock [])\<rparr>) =
     (Inr JNull, sample_shared\<lparr>redis := Some (winner_lock [])\<rparr>, 60) \<and>
   summarize_chapter sample_lib coalesced_env ''1'' sample_shared =
     (Inr sample_value, sample_shared\<lparr>redis := Some (winner_publish (winner_lock []))\<rparr>) \<and>
   summarize_chapter sample_lib abandoned_env ''1'' sample_shared =
     compute_summary sample_lib abandoned_env ''1'' False
       (sample_shared\<lparr>redis := Some (winner_lock [])\<rparr>)"
proof -
  let ?a = "[StrArg ''summarize'', StrArg ''1'']"
  let ?rk = "redis_key (hash_key sample_lib ?a)"
  let ?lk = "?rk @ '':lock''"
  let ?txt = \<open>''{"english": "X", "swahili": "Y"}''\<close>
  let ?db = "winner_lock []"
  let ?cL = "sample_shared\<lparr>redis := Some ?db\<rparr>"
  let ?pub = "\<lambda>n::nat. if n = 0 then winner_publish else (\<lambda>db. db)"
  let ?nf = "\<lambda>i::nat. False"
  note T = get_bounded_wait[where L = sample_lib and lt = 30 and a = ?a and fault = ?nf]
  have db: "?db = [(?lk, ''1'', 151 / 5)]"
    by (simp add: winner_lock_def r_set_nx_def r_exists_def r_get_def)
  have pb: "winner_publish ?db = [(?rk, ?txt, 2403 / 4)]"
    by (simp add: db winner_publish_def set_shared_def r_set_def r_delete_def sample_lib_def)
  have dec: "decode sample_lib ?txt = sample_value"
    by (simp add: decode_def sample_lib_def)
  have u: "use_redis ?cL" and r: "redis ?cL = Some ?db"
    by (simp_all add: sample_shared_def init_def)
  have nf: "\<forall>i. \<not> ?nf i" by simp
  have w1: "\<forall>j<1. \<not> val_truthy (entry_at sample_lib ?pub ?db (1 / 2) ?a j) \<and>
                  lock_at sample_lib ?pub ?db (1 / 2) ?a j"
    by (simp add: entry_at_def lock_at_def db r_get_def r_exists_def)
  have e1: "entry_at sample_lib ?pub ?db (1 / 2) ?a 1 = Some ?txt"
    by (simp add: entry_at_def pb r_get_def)
  have g1: "get sample_lib ?pub ?nf (1 / 2) True 30 ?a ?cL =
              (Inr (decode sample_lib ?txt), ?cL\<lparr>redis := Some (world ?pub ?db 1)\<rparr>, 1)"
    using T[where others = ?pub and now = "1 / 2" and c = ?cL and db = ?db and k = 1
        and s = ?txt] u r nf w1 e1
    by simp
  have g1': "get sample_lib ?pub ?nf (1 / 2) True 30 ?a ?cL =
               (Inr sample_value, sample_shared\<lparr>redis := Some (winner_publish ?db)\<rparr>, 1)"
    using g1 by (simp add: dec)
  have w2: "\<forall>j<57. \<not> val_truthy (entry_at sample_lib quiet ?db 2 ?a j) \<and>
                   lock_at sample_lib quiet ?db 2 ?a j"
  proof (intro allI impI)
    fix j :: nat assume "j < 57"
    then have "rat_of_nat j \<le> 56" by simp
    then show "\<not> val_truthy (entry_at sample_lib quiet ?db 2 ?a j) \<and>
               lock_at sample_lib quiet ?db 2 ?a j"
      by (simp add: entry_at_def lock_at_def db r_get_def r_exists_def)
  qed
  have e2: "\<not> val_truthy (entry_at sample_lib quiet ?db 2 ?a 57) \<and>
            \<not> lock_at sample_lib quiet ?db 2 ?a 57"
    by (simp add: entry_at_def lock_at_def db r_get_def r_exists_def)
  have g2: "get sample_lib quiet ?nf 2 True 30 ?a ?cL =
              (Inr JNull, ?cL\<lparr>redis := Some (world quiet ?db 57)\<rparr>, 57)"
    using T[where others = quiet and now = 2 and c = ?cL and db = ?db and k = 57]
      u r nf w2 e2
    by simp
  have w3: "\<forall>j. int j < 2 * 30 \<longrightarrow>
              \<not> val_truthy (entry_at sample_lib quiet ?db (1 / 2) ?a j) \<and>
              lock_at sample_lib quiet ?db (1 / 2) ?a j"
  proof (intro allI impI)
    fix j :: nat assume "int j < 2 * 30"
    then have "rat_of_nat j \<le> 59" by simp
    then show "\<not> val_truthy (entry_at sample_lib quiet ?db (1 / 2) ?a j) \<and>
               lock_at sample_lib quiet ?db (1 / 2) ?a j"
      by (simp add: entry_at_def lock_at_def db r_get_def r_exists_def)
  qed
  have g3: "get sample_lib quiet ?nf (1 / 2) True 30 ?a ?cL =
              (Inr JNull, ?cL\<lparr>redis := Some (world quiet ?db (nat (2 * 30)))\<rparr>, nat (2 * 30))"
    using T[where others = quiet and now = "1 / 2" and c = ?cL and db = ?db] u r nf w3
    by simp
  have g0: "get sample_lib f ?nf 0 True 30 ?a sample_shared = (Inr JNull, sample_shared, 0)" for f
    by (simp add: get_def call_def Let_def poll.simps r_get_def r_exists_def)
       (simp add: sample_shared_def init_def call_def r_get_def r_exists_def poll.simps)
  have al: "acquire_lock sample_lib ?nf (1 / 4) 30 ?a ?cL = (False, ?cL)"
    by (simp add: acquire_lock_def lock_check_def lock_write_def shared_def Let_def sample_shared_def init_def db r_set_nx_def
        r_exists_def r_get_def)
  have mw: "meanwhile winner_lock sample_shared = ?cL"
    by (simp add: meanwhile_def sample_shared_def init_def)
  have mi: "meanwhile (\<lambda>db. db) c = c" for c
    by (cases c) (simp add: meanwhile_def option.map_ident)
  have g3': "get sample_lib quiet ?nf (1 / 2) True 30 ?a ?cL = (Inr JNull, ?cL, 60)"
    using g3 by simp
  let ?cP = "sample_shared\<lparr>redis := Some (winner_publish ?db)\<rparr>"
  have c0: "get sample_lib (sleeping coalesced_env 0) (store_fault coalesced_env 0)
              (clock coalesced_env 0) True 30 ?a (meanwhile (before coalesced_env 0) sample_shared) =
              (Inr JNull, sample_shared, 0)"
    using g0 by (simp add: coalesced_env_def abandoned_env_def sample_env_def mi)
  have c1: "acquire_lock sample_lib (store_fault coalesced_env 1) (clock coalesced_env 1) 30 ?a
              (meanwhile (before coalesced_env 1) sample_shared) = (False, ?cL)"
    using al by (simp add: coalesced_env_def abandoned_env_def sample_env_def mw)
  have c2: "get sample_lib (sleeping coalesced_env 2) (store_fault coalesced_env 2)
              (clock coalesced_env 2) True 30 ?a (meanwhile (before coalesced_env 2) ?cL) =
              (Inr sample_value, ?cP, 1)"
    using g1' by (simp add: coalesced_env_def abandoned_env_def sample_env_def mi)
  have a0: "get sample_lib (sleeping abandoned_env 0) (store_fault abandoned_env 0)
              (clock abandoned_env 0) True 30 ?a (meanwhile (before abandoned_env 0) sample_shared) =
              (Inr JNull, sample_shared, 0)"
    using g0 by (simp add: abandoned_env_def sample_env_def mi)
  have a1: "acquire_lock sample_lib (store_fault abandoned_env 1) (clock abandoned_env 1) 30 ?a
              (meanwhile (before abandoned_env 1) sample_shared) = (False, ?cL)"
    using al by (simp add: abandoned_env_def sample_env_def mw)
  have a2: "get sample_lib (sleeping abandoned_env 2) (store_fault abandoned_env 2)
              (clock abandoned_env 2) True 30 ?a (meanwhile (before abandoned_env 2) ?cL) =
              (Inr JNull, ?cL, 60)"
    using g3' by (simp add: abandoned_env_def sample_env_def mi)
  have nt: "\<not> truthy JNull" by simp
  have h4: "summarize_chapter sample_lib coalesced_env ''1'' sample_shared =
              (if truthy sample_value then (Inr sample_value, ?cP)
               else compute_summary sample_lib coalesced_env ''1'' False ?cP)"
    using T[where E = coalesced_env and q = "''1''" and c = sample_shared and cached = JNull
        and ?c1.0 = sample_shared and ?n1.0 = 0 and ?c2.0 = ?cL and ?cached2.0 = sample_value
        and ?c3.0 = ?cP and ?n2.0 = 1] c0 c1 c2 nt
    by blast
  have h5: "summarize_chapter sample_lib abandoned_env ''1'' sample_shared =
              (if truthy JNull then (Inr JNull, ?cL)
               else compute_summary sample_lib abandoned_env ''1'' False ?cL)"
    using T[where E = abandoned_env and q = "''1''" and c = sample_shared and cached = JNull
        and ?c1.0 = sample_shared and ?n1.0 = 0 and ?c2.0 = ?cL and ?cached2.0 = JNull
        and ?c3.0 = ?cL and ?n2.0 = 60] a0 a1 a2 nt
    by blast
  show ?thesis
    using g1' g2 g3 h4 h5 by (simp add: sample_value_def)
qed

text \<open>
  C5. The owner's lock is released on every exit path of the handler. In
  \<open>summarize_chapter\<close> the retrieval \<open>_fetch_docs_by\<close> runs before the \<open>try\<close> block whose
  \<open>finally\<close> releases the lock: when retrieval raises after the lock was acquired, the
  exception leaves the handler with the lock record still in the store, and the next caller
  is refused. On the early return for no usable content the handler relies on \<open>set\<close> to
  release the lock, which the local variant does not do (see C2): the lock entry stays.
\<close>

theorem summarize_chapter_keeps_lock:
  "fst (summarize_chapter sample_lib (sample_env\<lparr>fetch_docs := Inl RetrievalError\<rparr>) ''1''
          sample_shared) = Inl RetrievalError \<and>
   lock_present sample_lib 3 [StrArg ''summarize'', StrArg ''1'']
     (snd (summarize_chapter sample_lib (sample_env\<lparr>fetch_docs := Inl RetrievalError\<rparr>) ''1''
             sample_shared)) \<and>
   \<not> fst (acquire_lock sample_lib (\<lambda>i. False) 3 30 [StrArg ''summarize'', StrArg ''1'']
           (snd (summarize_chapter sample_lib (sample_env\<lparr>fetch_docs := Inl RetrievalError\<rparr>)
                   ''1'' sample_shared))) \<and>
   fst (summarize_chapter sample_lib sample_env ''1'' sample_local) =
     Inr (JDict [(''english'', JStr ''No usable content found for Chapter 1.''),
                 (''swahili'', JStr [])]) \<and>
   lock_present sample_lib 100000 [StrArg ''summarize'', StrArg ''1'']
     (snd (summarize_chapter sample_lib sample_env ''1'' sample_local))"
proof -
  let ?a = "[StrArg ''summarize'', StrArg ''1'']"
  let ?E = "sample_env\<lparr>fetch_docs := Inl RetrievalError\<rparr>"
  let ?lk = "redis_key (hash_key sample_lib ?a) @ '':lock''"
  have s: "summarize_chapter sample_lib ?E ''1'' sample_shared =
             (Inl RetrievalError, sample_shared\<lparr>redis := Some [(?lk, ''1'', 32)]\<rparr>)"
    by (simp add: summarize_chapter_def compute_summary_def sample_env_def sample_shared_def
        init_def get_def call_def r_get_def r_exists_def poll.simps acquire_lock_def lock_check_def lock_write_def shared_def
        r_set_nx_def meanwhile_def Let_def)
  have ne: "hash_key sample_lib ?a \<noteq> ''lock:'' @ hash_key sample_lib ?a" by simp
  have l: "summarize_chapter sample_lib sample_env ''1'' sample_local =
             (Inr (JDict [(''english'', JStr ''No usable content found for Chapter 1.''),
                          (''swahili'', JStr [])]),
              sample_local\<lparr>mem_cache :=
                [(''lock:'' @ hash_key sample_lib ?a, JDict [], 2),
                 (hash_key sample_lib ?a,
                  JDict [(''english'', JStr ''No usable content found for Chapter 1.''),
                         (''swahili'', JStr [])], 4)]\<rparr>)"
    using ne
    by (simp add: summarize_chapter_def compute_summary_def sample_env_def sample_local_def
        init_def get_def acquire_lock_def lock_check_def lock_write_def set_cache_def shared_def meanwhile_def Let_def)
  show ?thesis
    unfolding s l
    by (simp add: lock_present_def acquire_lock_def lock_check_def lock_write_def shared_def sample_shared_def sample_local_def
        init_def r_exists_def r_get_def r_set_nx_def Let_def)
qed

text \<open>
  C8. Key hashing is deterministic and distinct tuples are joined to distinct strings. As
  stated this fails: the empty tuple and the tuple of one empty string are joined to the same
  string, and so are tuples that differ only in the type of an argument, such as \<open>(1)\<close> and
  \<open>("1")\<close>; none of them contains the delimiter.
\<close>

theorem key_str_collisions:
  "([] :: arg list) \<noteq> [StrArg ''''] \<and> key_str [] = key_str [StrArg ''''] \<and>
   [IntArg 1] \<noteq> [StrArg ''1''] \<and> key_str [IntArg 1] = key_str [StrArg ''1''] \<and>
   [StrArg ''ask'', IntArg (-12)] \<noteq> [StrArg ''ask'', StrArg ''-12''] \<and>
   key_str [StrArg ''ask'', IntArg (-12)] = key_str [StrArg ''ask'', StrArg ''-12'']"
  by (simp add: key_str_def digits.simps)

text \<open>
  C8, amended. For two non-empty tuples whose arguments' string forms contain no delimiter
  and differ somewhere, the joined strings differ, and the two keys are equal exactly when
  the digest maps these two strings to the same value. The key depends on the string forms
  of the arguments only, and has the fixed length of the digest.
\<close>

theorem hash_key_separates_joined_inputs:
  assumes "a \<noteq> []" and "b \<noteq> []"
    and "\<forall>x \<in> set a \<union> set b. CHR ''|'' \<notin> set (str x)"
    and "map str a \<noteq> map str b"
  shows "key_str a \<noteq> key_str b \<and>
         (hash_key L a = hash_key L b) = (md5_hex L (key_str a) = md5_hex L (key_str b)) \<and>
         (\<forall>c. map str c = map str a \<longrightarrow> hash_key L c = hash_key L a) \<and>
         ((\<forall>s. length (md5_hex L s) = 32) \<longrightarrow> length (hash_key L a) = 32)"
proof -
  have "key_str a \<noteq> key_str b"
  proof
    assume "key_str a = key_str b"
    then have "join ''|'' (map str a) = join ''|'' (map str b)" by (simp add: key_str_def)
    moreover have "map str a \<noteq> []" "map str b \<noteq> []" using assms(1,2) by simp_all
    moreover have "\<forall>x \<in> set (map str a) \<union> set (map str b). CHR ''|'' \<notin> set x"
      using assms(3) by auto
    ultimately have "map str a = map str b" using join_inj by blast
    then show False using assms(4) by simp
  qed
  then show ?thesis by (simp add: hash_key_def key_str_def)
qed

theorem hash_key_separates_joined_inputs_witness:
  "key_str [StrArg ''summarize'', StrArg ''1''] \<noteq> key_str [StrArg ''revision'', StrArg ''1''] \<and>
   (hash_key sample_lib [StrArg ''summarize'', StrArg ''1''] =
    hash_key sample_lib [StrArg ''revision'', StrArg ''1'']) =
   (md5_hex sample_lib (key_str [StrArg ''summarize'', StrArg ''1'']) =
    md5_hex sample_lib (key_str [StrArg ''revision'', StrArg ''1''])) \<and>
   hash_key sample_lib [StrArg ''summarize'', IntArg 1] =
   hash_key sample_lib [StrArg ''summarize'', StrArg ''1''] \<and>
   length (hash_key sample_lib [StrArg ''summarize'', StrArg ''1'']) = 32"
proof -
  let ?a = "[StrArg ''summarize'', StrArg ''1'']"
  let ?b = "[StrArg ''revision'', StrArg ''1'']"
  have h1: "?a \<noteq> []" and h2: "?b \<noteq> []" by simp_all
  have h3: "\<forall>x \<in> set ?a \<union> set ?b. CHR ''|'' \<notin> set (str x)" by simp
  have h4: "map str ?a \<noteq> map str ?b" by simp
  note T = hash_key_separates_joined_inputs[where L = sample_lib, OF h1 h2 h3 h4]
  have m: "map str [StrArg ''summarize'', IntArg 1] = map str ?a" by (simp add: digits.simps)
  have l: "\<forall>s. length (md5_hex sample_lib s) = 32" by (simp add: sample_lib_def min_def)
  show ?thesis using T m l by blast
qed

end
